theory Spec2Isabelle
  imports Complex_Main "HOL-Library.Multiset"
begin

section \<open>Data model (structures.py)\<close>

text \<open>
  A node's \<open>length\<close> is a Python number: a finite value, or \<open>math.inf\<close>. Edge weights
  are finite numbers (the matrix reader treats \<open>inf\<close> as "no edge"). Finite values are
  modelled exactly, as integers.
\<close>

datatype number = Fin int | PInf

text \<open>\<open>x + w\<close> for a length \<open>x\<close> and a finite weight \<open>w\<close>; \<open>inf + w = inf\<close>.\<close>

fun num_add :: "number \<Rightarrow> int \<Rightarrow> number" where
  "num_add (Fin a) w = Fin (a + w)"
| "num_add PInf w = PInf"

text \<open>\<open>x < y\<close> on Python numbers.\<close>

fun num_lt :: "number \<Rightarrow> number \<Rightarrow> bool" where
  "num_lt (Fin a) (Fin b) = (a < b)"
| "num_lt (Fin a) PInf = True"
| "num_lt PInf y = False"

text \<open>
  Nodes are objects with identity: a node is referred to by its address, an index into the
  store (the list of all live \<open>Node\<close> objects). Edges are never mutated after construction
  and are compared nowhere, so an edge is held by value in the adjacency lists; its \<open>tail\<close>
  and \<open>head\<close> are node addresses.
\<close>

record edge =
  tail :: nat
  head :: nat
  weight :: int

record 'a node =
  data :: 'a
  inbound :: "edge list"
  outbound :: "edge list"
  length_n :: number

type_synonym 'a store = "'a node list"

record graph =
  nodes :: "nat list"
  edges :: "edge list"

text \<open>
  Dereferencing an address. A Python reference always points to a live object, so an
  address outside the store does not occur in a run; the lookup is given a value there (a
  node without edges) only to make every function below total.
\<close>

definition deref :: "'a store \<Rightarrow> nat \<Rightarrow> 'a node" where
  "deref st i =
     (if i < length st then st ! i
      else \<lparr>data = undefined, inbound = [], outbound = [], length_n = PInf\<rparr>)"

definition length_of :: "'a store \<Rightarrow> nat \<Rightarrow> number" where
  "length_of st i = length_n (deref st i)"

definition outbound_of :: "'a store \<Rightarrow> nat \<Rightarrow> edge list" where
  "outbound_of st i = outbound (deref st i)"

text \<open>The assignment \<open>node.length = v\<close>.\<close>

definition set_length :: "'a store \<Rightarrow> nat \<Rightarrow> number \<Rightarrow> 'a store" where
  "set_length st i v = st[i := (deref st i)\<lparr>length_n := v\<rparr>]"

text \<open>\<open>Node.__eq__\<close> and \<open>Node.__lt__\<close>: both look at the \<open>length\<close> field only.\<close>

definition node_eq :: "'a node \<Rightarrow> 'a node \<Rightarrow> bool" where
  "node_eq a b = (length_n a = length_n b)"

definition node_lt :: "'a node \<Rightarrow> 'a node \<Rightarrow> bool" where
  "node_lt a b = num_lt (length_n a) (length_n b)"

text \<open>
  \<open>x in xs\<close> on a list of nodes: Python's list membership holds when some element is the
  same object as \<open>x\<close> or compares equal to it with \<open>__eq__\<close>.
\<close>

definition node_in :: "'a store \<Rightarrow> nat \<Rightarrow> nat list \<Rightarrow> bool" where
  "node_in st x xs = list_ex (\<lambda>y. y = x \<or> node_eq (deref st y) (deref st x)) xs"

section \<open>Operation counter (dijkstra.py, OpsTracker)\<close>

datatype error = ValueError | OverflowError | IndexError

record ops_tracker =
  simple_ops :: int
  heap_ops :: real

definition reset :: "ops_tracker \<Rightarrow> ops_tracker" where
  "reset t = t\<lparr>simple_ops := 0, heap_ops := 0\<rparr>"

definition incr_simple :: "int \<Rightarrow> ops_tracker \<Rightarrow> ops_tracker" where
  "incr_simple amount t = t\<lparr>simple_ops := simple_ops t + amount\<rparr>"

definition incr_heap :: "int \<Rightarrow> ops_tracker \<Rightarrow> ops_tracker" where
  "incr_heap amount t = t\<lparr>heap_ops := heap_ops t + real_of_int amount\<rparr>"

text \<open>
  \<open>math.log2\<close> on a positive argument; the running total is a real number here (the
  source holds a float). The logarithm is not computed when a run is evaluated: it stays
  a term of the total.
\<close>

definition log2 :: "real \<Rightarrow> real" where
  "log2 x = log 2 x"

declare log2_def [code del]

text \<open>
  \<open>math.log2\<close> raises \<open>ValueError\<close> (math domain error) on an argument that is not
  positive.
\<close>

definition add_heap_op :: "int \<Rightarrow> ops_tracker \<Rightarrow> error + ops_tracker" where
  "add_heap_op heap_size t =
     (if heap_size \<le> 0 then Inl ValueError
      else Inr (t\<lparr>heap_ops := heap_ops t + (log2 (real_of_int heap_size) + 1)\<rparr>))"

section \<open>The priority queue (Python's heapq, on a list of node addresses)\<close>

text \<open>
  \<open>heappush\<close> and \<open>heappop\<close> belong to Python's standard library, not to this repository;
  they are transcribed from the library's \<open>heapq.py\<close>. Items are compared with
  \<open>Node.__lt__\<close>, that is, by the length the node has at the moment of the comparison.
\<close>

function siftdown_loop :: "'a store \<Rightarrow> nat list \<Rightarrow> nat \<Rightarrow> nat \<Rightarrow> nat \<Rightarrow> nat list" where
  "siftdown_loop st h startpos pos newitem =
     (if startpos < pos then
        (let parentpos = (pos - 1) div 2; parent = h ! parentpos in
         if node_lt (deref st newitem) (deref st parent)
         then siftdown_loop st (h[pos := parent]) startpos parentpos newitem
         else h[pos := newitem])
      else h[pos := newitem])"
  by pat_completeness auto
termination
  by (relation "measure (\<lambda>(st, h, startpos, pos, newitem). pos)") auto

definition siftdown :: "'a store \<Rightarrow> nat list \<Rightarrow> nat \<Rightarrow> nat \<Rightarrow> nat list" where
  "siftdown st h startpos pos = siftdown_loop st h startpos pos (h ! pos)"

function siftup_loop :: "'a store \<Rightarrow> nat list \<Rightarrow> nat \<Rightarrow> nat \<Rightarrow> nat list \<times> nat" where
  "siftup_loop st h endpos pos =
     (let childpos = 2 * pos + 1 in
      if childpos < endpos then
        (let rightpos = childpos + 1;
             childpos' = (if rightpos < endpos
                             \<and> \<not> node_lt (deref st (h ! childpos)) (deref st (h ! rightpos))
                          then rightpos else childpos)
         in siftup_loop st (h[pos := h ! childpos']) endpos childpos')
      else (h, pos))"
  by pat_completeness auto
termination
  by (relation "measure (\<lambda>(st, h, endpos, pos). endpos - pos)") (auto simp: Let_def)

definition siftup :: "'a store \<Rightarrow> nat list \<Rightarrow> nat \<Rightarrow> nat list" where
  "siftup st h pos =
     (let newitem = h ! pos in
      case siftup_loop st h (length h) pos of
        (h', pos') \<Rightarrow> siftdown st (h'[pos' := newitem]) pos pos')"

definition heappush :: "'a store \<Rightarrow> nat list \<Rightarrow> nat \<Rightarrow> nat list" where
  "heappush st h item = siftdown st (h @ [item]) 0 (length h)"

text \<open>\<open>heap.pop()\<close> raises \<open>IndexError\<close> on an empty list.\<close>

definition heappop :: "'a store \<Rightarrow> nat list \<Rightarrow> error + (nat \<times> nat list)" where
  "heappop st h =
     (if h = [] then Inl IndexError
      else (let lastelt = last h; h' = butlast h in
            if h' \<noteq> [] then
              (let returnitem = h' ! 0; h'' = h'[0 := lastelt]
               in Inr (returnitem, siftup st h'' 0))
            else Inr (lastelt, h')))"

declare siftdown_loop.simps [simp del]
declare siftup_loop.simps [simp del]

lemma set_siftdown_loop:
  "set (siftdown_loop st h startpos pos x) \<subseteq> insert x (set h)"
proof (induction st h startpos pos x rule: siftdown_loop.induct)
  case (1 st h startpos pos newitem)
  show ?case
  proof (cases "startpos < pos \<and> node_lt (deref st newitem) (deref st (h ! ((pos - 1) div 2)))")
    case True
    then have pp: "(pos - 1) div 2 < pos" by auto
    from True have "set (siftdown_loop st (h[pos := h ! ((pos - 1) div 2)]) startpos ((pos - 1) div 2) newitem)
        \<subseteq> insert newitem (set (h[pos := h ! ((pos - 1) div 2)]))"
      using "1.IH" by simp
    moreover have "set (h[pos := h ! ((pos - 1) div 2)]) \<subseteq> set h"
    proof (cases "pos < length h")
      case True
      with pp have "h ! ((pos - 1) div 2) \<in> set h" by simp
      then show ?thesis using set_update_subset_insert [of h pos] by blast
    next
      case False
      then show ?thesis by (simp add: list_update_beyond)
    qed
    ultimately show ?thesis
      using True by (subst siftdown_loop.simps) (auto simp: Let_def)
  next
    case False
    then show ?thesis
      using set_update_subset_insert [of h pos newitem]
      by (subst siftdown_loop.simps) (auto simp: Let_def)
  qed
qed

lemma length_siftdown_loop [simp]:
  "length (siftdown_loop st h startpos pos x) = length h"
proof (induction st h startpos pos x rule: siftdown_loop.induct)
  case (1 st h startpos pos newitem)
  then show ?case
    by (subst siftdown_loop.simps) (auto simp: Let_def)
qed

lemma length_siftup_loop [simp]:
  "length (fst (siftup_loop st h endpos pos)) = length h"
proof (induction st h endpos pos rule: siftup_loop.induct)
  case (1 st h endpos pos)
  then show ?case
    by (subst siftup_loop.simps) (auto simp: Let_def)
qed

lemma set_update_nth_subset:
  "j < length h \<Longrightarrow> set (h[i := h ! j]) \<subseteq> set h"
proof (cases "i < length h")
  case True
  assume "j < length h"
  then have "h ! j \<in> set h" by simp
  then show ?thesis using set_update_subset_insert [of h i "h ! j"] by blast
next
  case False
  then show ?thesis by (simp add: list_update_beyond)
qed

lemma set_siftup_loop:
  "endpos \<le> length h \<Longrightarrow> set (fst (siftup_loop st h endpos pos)) \<subseteq> set h"
proof (induction st h endpos pos rule: siftup_loop.induct)
  case (1 st h endpos pos)
  show ?case
  proof (cases "2 * pos + 1 < endpos")
    case True
    define c where "c = (if 2 * pos + 1 + 1 < endpos
        \<and> \<not> node_lt (deref st (h ! (2 * pos + 1))) (deref st (h ! (2 * pos + 1 + 1)))
        then 2 * pos + 1 + 1 else 2 * pos + 1)"
    have c: "c < endpos" using True by (simp add: c_def)
    with "1.prems" have "c < length h" by simp
    then have sub: "set (h[pos := h ! c]) \<subseteq> set h" by (rule set_update_nth_subset)
    have "set (fst (siftup_loop st (h[pos := h ! c]) endpos c)) \<subseteq> set (h[pos := h ! c])"
      using "1.IH" [OF refl True refl, of c] "1.prems" by (simp add: c_def)
    with sub have "set (fst (siftup_loop st (h[pos := h ! c]) endpos c)) \<subseteq> set h" by blast
    moreover have "siftup_loop st h endpos pos = siftup_loop st (h[pos := h ! c]) endpos c"
      using True by (subst siftup_loop.simps) (simp add: Let_def c_def)
    ultimately show ?thesis by simp
  next
    case False
    then show ?thesis by (subst siftup_loop.simps) (simp add: Let_def)
  qed
qed

lemma snd_siftup_loop:
  "pos < endpos \<Longrightarrow> snd (siftup_loop st h endpos pos) < endpos"
proof (induction st h endpos pos rule: siftup_loop.induct)
  case (1 st h endpos pos)
  show ?case
  proof (cases "2 * pos + 1 < endpos")
    case True
    define c where "c = (if 2 * pos + 1 + 1 < endpos
        \<and> \<not> node_lt (deref st (h ! (2 * pos + 1))) (deref st (h ! (2 * pos + 1 + 1)))
        then 2 * pos + 1 + 1 else 2 * pos + 1)"
    have c: "c < endpos" using True by (simp add: c_def)
    have "snd (siftup_loop st (h[pos := h ! c]) endpos c) < endpos"
      using "1.IH" [OF refl True refl, of c] c by (simp add: c_def)
    moreover have "siftup_loop st h endpos pos = siftup_loop st (h[pos := h ! c]) endpos c"
      using True by (subst siftup_loop.simps) (simp add: Let_def c_def)
    ultimately show ?thesis by simp
  next
    case False
    then show ?thesis using "1.prems" by (subst siftup_loop.simps) (simp add: Let_def)
  qed
qed

lemma length_siftdown [simp]: "length (siftdown st h startpos pos) = length h"
  by (simp add: siftdown_def)

lemma set_siftdown: "pos < length h \<Longrightarrow> set (siftdown st h startpos pos) \<subseteq> set h"
  using set_siftdown_loop [of st h startpos pos "h ! pos"] by (auto simp: siftdown_def)

lemma length_heappush [simp]: "length (heappush st h x) = Suc (length h)"
  by (simp add: heappush_def)

lemma set_heappush: "set (heappush st h x) \<subseteq> insert x (set h)"
  using set_siftdown [of "length h" "h @ [x]" st 0] by (auto simp: heappush_def)

lemma length_siftup [simp]: "length (siftup st h pos) = length h"
proof -
  obtain h' pos' where r: "siftup_loop st h (length h) pos = (h', pos')"
    by (cases "siftup_loop st h (length h) pos")
  have "length (fst (siftup_loop st h (length h) pos)) = length h" by simp
  with r have "length h' = length h" by simp
  with r show ?thesis by (simp add: siftup_def Let_def)
qed

lemma set_siftup: "pos < length h \<Longrightarrow> set (siftup st h pos) \<subseteq> set h"
proof -
  assume pos: "pos < length h"
  obtain h' pos' where r: "siftup_loop st h (length h) pos = (h', pos')"
    by (cases "siftup_loop st h (length h) pos")
  have "set (fst (siftup_loop st h (length h) pos)) \<subseteq> set h"
    by (rule set_siftup_loop) simp
  with r have h': "set h' \<subseteq> set h" by simp
  from pos have "h ! pos \<in> set h" by simp
  with h' have "insert (h ! pos) (set h') \<subseteq> set h" by simp
  moreover have "set (siftdown_loop st (h'[pos' := h ! pos]) pos pos' ((h'[pos' := h ! pos]) ! pos'))
      \<subseteq> insert ((h'[pos' := h ! pos]) ! pos') (set (h'[pos' := h ! pos]))"
    by (rule set_siftdown_loop)
  moreover have "set (h'[pos' := h ! pos]) \<subseteq> insert (h ! pos) (set h')"
    by (rule set_update_subset_insert)
  moreover have "(h'[pos' := h ! pos]) ! pos' \<in> insert (h ! pos) (set h')"
  proof -
    have "snd (siftup_loop st h (length h) pos) < length h"
      using pos by (rule snd_siftup_loop)
    moreover have "length (fst (siftup_loop st h (length h) pos)) = length h" by simp
    ultimately have "pos' < length h'" using r by simp
    then show ?thesis by simp
  qed
  ultimately have "set (siftdown_loop st (h'[pos' := h ! pos]) pos pos' ((h'[pos' := h ! pos]) ! pos'))
      \<subseteq> set h"
    by blast
  then show ?thesis using r by (simp add: siftup_def siftdown_def Let_def)
qed

lemma heappop_props:
  assumes "heappop st h = Inr (x, h')"
  shows "x \<in> set h" and "set h' \<subseteq> set h" and "Suc (length h') = length h"
proof -
  from assms have ne: "h \<noteq> []" by (auto simp: heappop_def split: if_splits)
  have bl: "set (butlast h) \<subseteq> set h" by (auto dest: in_set_butlastD)
  have la: "last h \<in> set h" using ne by simp
  have len: "Suc (length (butlast h)) = length h" using ne by simp
  show "x \<in> set h"
  proof (cases "butlast h = []")
    case True
    with assms ne la show ?thesis by (simp add: heappop_def Let_def)
  next
    case False
    then have "0 < length (butlast h)" by (cases "butlast h") simp_all
    then have "butlast h ! 0 \<in> set (butlast h)" by (rule nth_mem)
    with assms ne False bl show ?thesis by (auto simp: heappop_def Let_def)
  qed
  show "set h' \<subseteq> set h"
  proof (cases "butlast h = []")
    case True
    with assms ne show ?thesis by (simp add: heappop_def Let_def)
  next
    case False
    then have "0 < length (butlast h)" by (cases "butlast h") simp_all
    then have "0 < length ((butlast h)[0 := last h])" by simp
    then have "set (siftup st ((butlast h)[0 := last h]) 0) \<subseteq> set ((butlast h)[0 := last h])"
      by (rule set_siftup)
    moreover have "set ((butlast h)[0 := last h]) \<subseteq> insert (last h) (set (butlast h))"
      by (rule set_update_subset_insert)
    ultimately have "set (siftup st ((butlast h)[0 := last h]) 0) \<subseteq> set h"
      using bl la by blast
    with assms ne False show ?thesis by (auto simp: heappop_def Let_def)
  qed
  show "Suc (length h') = length h"
  proof (cases "butlast h = []")
    case True
    with assms ne have "h' = butlast h" by (simp add: heappop_def Let_def)
    with len show ?thesis by (simp only:)
  next
    case False
    with assms ne have "h' = siftup st ((butlast h)[0 := last h]) 0"
      by (auto simp: heappop_def Let_def)
    then have "length h' = length (butlast h)" by simp
    with len show ?thesis by (simp only:)
  qed
qed

lemma heappop_nonempty: "h \<noteq> [] \<Longrightarrow> \<exists>x h'. heappop st h = Inr (x, h')"
  by (simp add: heappop_def Let_def)

section \<open>Simple shortest path (dijkstra.py, simple_shortest_path)\<close>

definition check_edge ::
  "'a store \<Rightarrow> nat list \<Rightarrow> edge \<Rightarrow> edge option \<times> number \<times> ops_tracker
     \<Rightarrow> edge option \<times> number \<times> ops_tracker" where
  "check_edge st visited e acc =
     (case acc of (best_edge, best_criterion, t) \<Rightarrow>
        if head e \<notin> set visited then
          (let t1 = incr_simple 2 t;
               criterion = num_add (length_of st (tail e)) (weight e)
           in if num_lt criterion best_criterion
              then (Some e, criterion, incr_simple 2 t1)
              else (best_edge, best_criterion, t1))
        else acc)"

definition scan_node ::
  "'a store \<Rightarrow> nat list \<Rightarrow> nat \<Rightarrow> edge option \<times> number \<times> ops_tracker
     \<Rightarrow> edge option \<times> number \<times> ops_tracker" where
  "scan_node st visited n acc =
     (case acc of (best_edge, best_criterion, t) \<Rightarrow>
        fold (check_edge st visited) (outbound_of st n)
          (best_edge, best_criterion, incr_simple 1 t))"

definition get_best_edge ::
  "'a store \<Rightarrow> nat list \<Rightarrow> ops_tracker \<Rightarrow> edge option \<times> number \<times> ops_tracker" where
  "get_best_edge st visited t =
     fold (scan_node st visited) visited (None, PInf, incr_simple 2 t)"

definition all_heads :: "'a store \<Rightarrow> nat set" where
  "all_heads st = (\<Union>n \<in> set st. head ` set (outbound n))"

lemma finite_all_heads [simp]: "finite (all_heads st)"
  by (simp add: all_heads_def)

lemma length_set_length [simp]: "length (set_length st i v) = length st"
  by (simp add: set_length_def)

lemma outbound_of_set_length [simp]: "outbound_of (set_length st i v) n = outbound_of st n"
  by (simp add: outbound_of_def deref_def set_length_def nth_list_update)

lemma all_heads_outbound_of: "all_heads st = (\<Union>n. head ` set (outbound_of st n))"
proof (rule set_eqI)
  fix x
  show "x \<in> all_heads st \<longleftrightarrow> x \<in> (\<Union>n. head ` set (outbound_of st n))"
  proof
    assume "x \<in> all_heads st"
    then obtain nd where nd: "nd \<in> set st" "x \<in> head ` set (outbound nd)"
      by (auto simp: all_heads_def)
    then obtain i where "i < length st" "st ! i = nd" by (auto simp: in_set_conv_nth)
    with nd have "x \<in> head ` set (outbound_of st i)" by (simp add: outbound_of_def deref_def)
    then show "x \<in> (\<Union>n. head ` set (outbound_of st n))" by blast
  next
    assume "x \<in> (\<Union>n. head ` set (outbound_of st n))"
    then obtain i where i: "x \<in> head ` set (outbound_of st i)" by blast
    then have "i < length st" by (auto simp: outbound_of_def deref_def split: if_splits)
    with i have "st ! i \<in> set st" "x \<in> head ` set (outbound (st ! i))"
      by (simp_all add: outbound_of_def deref_def)
    then show "x \<in> all_heads st" unfolding all_heads_def by blast
  qed
qed

lemma all_heads_set_length [simp]: "all_heads (set_length st i v) = all_heads st"
  by (simp add: all_heads_outbound_of)

lemma head_in_all_heads: "e \<in> set (outbound_of st n) \<Longrightarrow> head e \<in> all_heads st"
  by (auto simp: all_heads_outbound_of)

definition candidate :: "'a store \<Rightarrow> nat list \<Rightarrow> edge \<Rightarrow> bool" where
  "candidate st visited e =
     (head e \<notin> set visited \<and> (\<exists>n \<in> set visited. e \<in> set (outbound_of st n)))"

lemma check_edge_candidate:
  assumes "\<forall>e. fst acc = Some e \<longrightarrow> candidate st visited e"
    and "\<exists>n \<in> set visited. e \<in> set (outbound_of st n)"
  shows "\<forall>e'. fst (check_edge st visited e acc) = Some e' \<longrightarrow> candidate st visited e'"
  using assms by (cases acc) (auto simp: check_edge_def Let_def candidate_def)

lemma fold_check_edge_candidate:
  assumes "\<forall>e. fst acc = Some e \<longrightarrow> candidate st visited e"
    and "\<forall>e \<in> set es. \<exists>n \<in> set visited. e \<in> set (outbound_of st n)"
  shows "\<forall>e'. fst (fold (check_edge st visited) es acc) = Some e' \<longrightarrow> candidate st visited e'"
  using assms
proof (induction es arbitrary: acc)
  case Nil
  then show ?case by simp
next
  case (Cons e es)
  have "\<forall>e'. fst (check_edge st visited e acc) = Some e' \<longrightarrow> candidate st visited e'"
    using Cons.prems by (intro check_edge_candidate) auto
  then show ?case using Cons.IH Cons.prems by simp
qed

lemma scan_node_candidate:
  assumes "\<forall>e. fst acc = Some e \<longrightarrow> candidate st visited e" and "n \<in> set visited"
  shows "\<forall>e'. fst (scan_node st visited n acc) = Some e' \<longrightarrow> candidate st visited e'"
proof -
  obtain b c t where acc: "acc = (b, c, t)" by (cases acc)
  have "\<forall>e'. fst (fold (check_edge st visited) (outbound_of st n) (b, c, incr_simple 1 t)) = Some e'
      \<longrightarrow> candidate st visited e'"
    using assms acc by (intro fold_check_edge_candidate) auto
  then show ?thesis by (simp add: scan_node_def acc)
qed

lemma fold_scan_node_candidate:
  assumes "\<forall>e. fst acc = Some e \<longrightarrow> candidate st visited e" and "set ns \<subseteq> set visited"
  shows "\<forall>e'. fst (fold (scan_node st visited) ns acc) = Some e' \<longrightarrow> candidate st visited e'"
  using assms
proof (induction ns arbitrary: acc)
  case Nil
  then show ?case by simp
next
  case (Cons n ns)
  have "\<forall>e'. fst (scan_node st visited n acc) = Some e' \<longrightarrow> candidate st visited e'"
    using Cons.prems by (intro scan_node_candidate) auto
  then show ?case using Cons.IH Cons.prems by simp
qed

lemma get_best_edge_candidate:
  "get_best_edge st visited t = (Some e, c, t') \<Longrightarrow> candidate st visited e"
  using fold_scan_node_candidate [of "(None, PInf, incr_simple 2 t)" st visited visited]
  by (simp add: get_best_edge_def)

function simple_loop :: "'a store \<Rightarrow> nat list \<Rightarrow> ops_tracker \<Rightarrow> 'a store \<times> ops_tracker" where
  "simple_loop st visited t =
     (case get_best_edge st visited t of
        (next_edge, w, t1) \<Rightarrow>
          (let t2 = incr_simple 1 t1 in
           case next_edge of
             None \<Rightarrow> (st, t2)
           | Some e \<Rightarrow>
               simple_loop (set_length st (head e) w) (visited @ [head e]) (incr_simple 2 t2)))"
  by pat_completeness auto
termination
proof (relation "measure (\<lambda>(st, visited, t). card (all_heads st - set visited))")
  show "wf (measure (\<lambda>(st, visited, t). card (all_heads st - set visited)))" by simp
next
  fix st :: "'a store" and visited t x y w z t2 e
  assume "(x, y) = get_best_edge st visited t" "(w, z) = y" "x = Some e"
  then have "get_best_edge st visited t = (Some e, w, z)" by simp
  then have c: "candidate st visited e" by (rule get_best_edge_candidate)
  then have "head e \<in> all_heads st - set visited"
    by (auto simp: candidate_def head_in_all_heads)
  moreover have "all_heads st - set (visited @ [head e]) = (all_heads st - set visited) - {head e}"
    by auto
  ultimately have "card (all_heads st - set (visited @ [head e])) < card (all_heads st - set visited)"
    using card_Diff1_less [of "all_heads st - set visited" "head e"] by simp
  then show "((set_length st (head e) w, visited @ [head e], incr_simple 2 t2), st, visited, t)
       \<in> measure (\<lambda>(st, visited, t). card (all_heads st - set visited))"
    by simp
qed

text \<open>
  The initialisation loop, the same in both variants but for the counter it increments
  (\<open>incr\<close> is \<open>incr_simple\<close> in one and \<open>incr_heap\<close> in the other): \<open>start.length = 0\<close>,
  then every node of \<open>graph.nodes\<close> that is not \<open>start\<close> gets \<open>math.inf\<close>.
\<close>

definition init_node ::
  "(int \<Rightarrow> ops_tracker \<Rightarrow> ops_tracker) \<Rightarrow> nat \<Rightarrow> nat \<Rightarrow> 'a store \<times> ops_tracker
     \<Rightarrow> 'a store \<times> ops_tracker" where
  "init_node incr start n acc =
     (case acc of (st, t) \<Rightarrow>
        (let t1 = incr 1 t in
         if n \<noteq> start then (set_length st n PInf, incr 1 t1) else (st, t1)))"

definition init_lengths ::
  "(int \<Rightarrow> ops_tracker \<Rightarrow> ops_tracker) \<Rightarrow> 'a store \<Rightarrow> graph \<Rightarrow> nat \<Rightarrow> ops_tracker
     \<Rightarrow> 'a store \<times> ops_tracker" where
  "init_lengths incr st g start t =
     fold (init_node incr start) (nodes g) (set_length st start (Fin 0), t)"

definition simple_shortest_path ::
  "'a store \<Rightarrow> graph \<Rightarrow> nat \<Rightarrow> ops_tracker \<Rightarrow> 'a store \<times> ops_tracker" where
  "simple_shortest_path st g start t =
     (let t1 = incr_simple 2 t; visited = [start] in
      case init_lengths incr_simple st g start t1 of
        (st1, t2) \<Rightarrow> simple_loop st1 visited t2)"

section \<open>Heap shortest path (dijkstra.py, heap_shortest_path)\<close>

text \<open>
  \<open>heap_str\<close> is evaluated at every iteration (it is an argument of the logging call). Its
  string is only logged; what matters to the run is that \<open>int(node.length)\<close> raises
  \<open>OverflowError\<close> when a node of the heap has length \<open>math.inf\<close>.
\<close>

definition heap_str :: "'a store \<Rightarrow> nat list \<Rightarrow> error + unit" where
  "heap_str st heap =
     (if list_ex (\<lambda>n. length_of st n = PInf) heap then Inl OverflowError else Inr ())"

text \<open>The body of \<open>for edge in current.outbound\<close>.\<close>

definition relax_edge ::
  "nat \<Rightarrow> nat list \<Rightarrow> edge \<Rightarrow> 'a store \<times> nat list \<times> ops_tracker
     \<Rightarrow> error + 'a store \<times> nat list \<times> ops_tracker" where
  "relax_edge current visited e s =
     (case s of (st, heap, t) \<Rightarrow>
        (let t1 = incr_heap 3 t;
             criterion = num_add (length_of st current) (weight e);
             (st1, t2) = (if num_lt criterion (length_of st (head e))
                          then (set_length st (head e) criterion, incr_heap 1 t1)
                          else (st, t1))
         in if \<not> node_in st1 (head e) visited then
              (case add_heap_op (max 1 (int (length heap))) t2 of
                 Inl err \<Rightarrow> Inl err
               | Inr t3 \<Rightarrow> Inr (st1, heappush st1 heap (head e), t3))
            else Inr (st1, heap, t2)))"

fun relax_all ::
  "nat \<Rightarrow> nat list \<Rightarrow> edge list \<Rightarrow> 'a store \<times> nat list \<times> ops_tracker
     \<Rightarrow> error + 'a store \<times> nat list \<times> ops_tracker" where
  "relax_all current visited [] s = Inr s"
| "relax_all current visited (e # es) s =
     (case relax_edge current visited e s of
        Inl err \<Rightarrow> Inl err
      | Inr s' \<Rightarrow> relax_all current visited es s')"

lemma relax_edge_heads:
  assumes "relax_edge current visited e (st, heap, t) = Inr (st', heap', t')"
  shows "all_heads st' = all_heads st \<and> set heap' \<subseteq> insert (head e) (set heap)"
  using assms set_heappush [of _ heap "head e"]
  by (auto simp: relax_edge_def Let_def split: if_splits sum.splits)

lemma relax_all_heads:
  assumes "relax_all current visited es (st, heap, t) = Inr (st', heap', t')"
  shows "all_heads st' = all_heads st \<and> set heap' \<subseteq> head ` set es \<union> set heap"
  using assms
proof (induction es arbitrary: st heap t)
  case Nil
  then show ?case by simp
next
  case (Cons e es)
  from Cons.prems obtain st1 heap1 t1 where
    r: "relax_edge current visited e (st, heap, t) = Inr (st1, heap1, t1)"
    and rest: "relax_all current visited es (st1, heap1, t1) = Inr (st', heap', t')"
    by (auto split: sum.splits)
  from relax_edge_heads [OF r] Cons.IH [OF rest] show ?case by auto
qed

function heap_loop ::
  "'a store \<Rightarrow> nat list \<Rightarrow> nat list \<Rightarrow> ops_tracker \<Rightarrow> error + 'a store \<times> ops_tracker" where
  "heap_loop st visited heap t =
     (if 0 < length heap then
        (case heap_str st heap of
           Inl err \<Rightarrow> Inl err
         | Inr u \<Rightarrow>
        (case add_heap_op (int (length heap)) t of
           Inl err \<Rightarrow> Inl err
         | Inr t1 \<Rightarrow>
        (case heappop st heap of
           Inl err \<Rightarrow> Inl err
         | Inr (current, heap1) \<Rightarrow>
             (let t2 = incr_heap 1 t1 in
              if current \<in> set visited then heap_loop st visited heap1 t2
              else
                (let t3 = incr_heap 1 t2; visited1 = visited @ [current] in
                 case relax_all current visited1 (outbound_of st current) (st, heap1, t3) of
                   Inl err \<Rightarrow> Inl err
                 | Inr (st', heap', t') \<Rightarrow> heap_loop st' visited1 heap' t')))))
      else Inr (st, t))"
  by pat_completeness auto
termination
proof (relation "inv_image (less_than <*lex*> less_than)
    (\<lambda>(st, visited, heap, t). (card ((all_heads st \<union> set heap) - set visited), length heap))")
  show "wf (inv_image (less_than <*lex*> less_than)
    (\<lambda>(st, visited, heap, t). (card ((all_heads st \<union> set heap) - set visited), length heap)))"
    by (intro wf_inv_image wf_lex_prod wf_less_than)
next
  fix st :: "'a store" and visited heap and t :: ops_tracker and u t1 x current heap1
    and t2 :: ops_tracker
  assume "heappop st heap = Inr x" "(current, heap1) = x" "current \<in> set visited"
  then have pop: "heappop st heap = Inr (current, heap1)" by simp
  have "(all_heads st \<union> set heap1) - set visited \<subseteq> (all_heads st \<union> set heap) - set visited"
    using heappop_props(2) [OF pop] by blast
  then have "card ((all_heads st \<union> set heap1) - set visited)
      \<le> card ((all_heads st \<union> set heap) - set visited)"
    by (intro card_mono) simp_all
  moreover have "length heap1 < length heap" using heappop_props(3) [OF pop] by simp
  ultimately show "((st, visited, heap1, t2), st, visited, heap, t)
      \<in> inv_image (less_than <*lex*> less_than)
       (\<lambda>(st, visited, heap, t). (card ((all_heads st \<union> set heap) - set visited), length heap))"
    by auto
next
  fix st :: "'a store" and visited heap and t :: ops_tracker and u t1 x current heap1 t2 t3
    and visited1 y st' z heap' and t' :: ops_tracker
  assume pop0: "heappop st heap = Inr x" "(current, heap1) = x"
    and nv: "current \<notin> set visited"
    and v1: "visited1 = visited @ [current]"
    and rel0: "relax_all current visited1 (outbound_of st current) (st, heap1, t3) = Inr y"
      "(st', z) = y" "(heap', t') = z"
  from pop0 have pop: "heappop st heap = Inr (current, heap1)" by simp
  from rel0 have rel: "relax_all current visited1 (outbound_of st current) (st, heap1, t3)
      = Inr (st', heap', t')" by simp
  from relax_all_heads [OF rel] have ah: "all_heads st' = all_heads st"
    and hs: "set heap' \<subseteq> head ` set (outbound_of st current) \<union> set heap1" by simp_all
  have "head ` set (outbound_of st current) \<subseteq> all_heads st"
    by (auto simp: head_in_all_heads)
  with hs heappop_props(2) [OF pop] have "set heap' \<subseteq> all_heads st \<union> set heap" by blast
  then have sub: "(all_heads st' \<union> set heap') - set visited1
      \<subseteq> ((all_heads st \<union> set heap) - set visited) - {current}"
    using ah v1 by auto
  have cur: "current \<in> (all_heads st \<union> set heap) - set visited"
    using heappop_props(1) [OF pop] nv by simp
  have "card ((all_heads st' \<union> set heap') - set visited1)
      \<le> card (((all_heads st \<union> set heap) - set visited) - {current})"
    using sub by (intro card_mono) simp_all
  also have "\<dots> < card ((all_heads st \<union> set heap) - set visited)"
    using cur by (intro card_Diff1_less) simp_all
  finally show "((st', visited1, heap', t'), st, visited, heap, t)
      \<in> inv_image (less_than <*lex*> less_than)
       (\<lambda>(st, visited, heap, t). (card ((all_heads st \<union> set heap) - set visited), length heap))"
    by simp
qed

definition heap_shortest_path ::
  "'a store \<Rightarrow> graph \<Rightarrow> nat \<Rightarrow> ops_tracker \<Rightarrow> error + 'a store \<times> ops_tracker" where
  "heap_shortest_path st g start t =
     (let t1 = incr_heap 3 t in
      case init_lengths incr_heap st g start t1 of
        (st1, t2) \<Rightarrow>
          (let visited = []; heap = [start] in heap_loop st1 visited heap t2))"

declare simple_loop.simps [simp del]
declare heap_loop.simps [simp del]

section \<open>Observations and example graphs\<close>

definition lengths :: "'a store \<Rightarrow> number list" where
  "lengths st = map length_n st"

definition simple_lengths :: "'a store \<Rightarrow> graph \<Rightarrow> nat \<Rightarrow> ops_tracker \<Rightarrow> number list" where
  "simple_lengths st g start t = lengths (fst (simple_shortest_path st g start t))"

definition heap_lengths :: "'a store \<Rightarrow> graph \<Rightarrow> nat \<Rightarrow> ops_tracker \<Rightarrow> error + number list" where
  "heap_lengths st g start t =
     (case heap_shortest_path st g start t of
        Inl err \<Rightarrow> Inl err
      | Inr (st', t') \<Rightarrow> Inr (lengths st'))"

definition t0 :: ops_tracker where
  "t0 = \<lparr>simple_ops = 0, heap_ops = 0\<rparr>"

text \<open>Nodes A, B, C (addresses 0, 1, 2) with the edges A \<open>\<rightarrow>\<close> B of weight 0 and
  B \<open>\<rightarrow>\<close> C of weight 1.\<close>

definition edge_AB :: edge where "edge_AB = \<lparr>tail = 0, head = 1, weight = 0\<rparr>"
definition edge_BC :: edge where "edge_BC = \<lparr>tail = 1, head = 2, weight = 1\<rparr>"

definition chain_store :: "string store" where
  "chain_store =
     [\<lparr>data = ''A'', inbound = [], outbound = [edge_AB], length_n = PInf\<rparr>,
      \<lparr>data = ''B'', inbound = [edge_AB], outbound = [edge_BC], length_n = PInf\<rparr>,
      \<lparr>data = ''C'', inbound = [edge_BC], outbound = [], length_n = PInf\<rparr>]"

definition chain_graph :: graph where
  "chain_graph = \<lparr>nodes = [0, 1, 2], edges = [edge_AB, edge_BC]\<rparr>"



definition relaxed_edge :: "'a store \<Rightarrow> edge \<Rightarrow> bool" where
  "relaxed_edge st e =
     (length_of st (tail e) = PInf
      \<or> \<not> num_lt (num_add (length_of st (tail e)) (weight e)) (length_of st (head e)))"

definition optimal :: "'a store \<Rightarrow> graph \<Rightarrow> bool" where
  "optimal st g = list_all (relaxed_edge st) (edges g)"

definition heap_optimal :: "'a store \<Rightarrow> graph \<Rightarrow> nat \<Rightarrow> ops_tracker \<Rightarrow> error + bool" where
  "heap_optimal st g start t =
     (case heap_shortest_path st g start t of
        Inl err \<Rightarrow> Inl err
      | Inr (st', t') \<Rightarrow> Inr (optimal st' g))"

text \<open>The chain after the initialisation of a run from A.\<close>

definition chain_init :: "string store" where
  "chain_init = fst (init_lengths incr_heap chain_store chain_graph 0 t0)"


section \<open>Properties of the store operations\<close>

lemma length_of_set_length:
  "length_of (set_length st i v) j = (if j = i \<and> i < length st then v else length_of st j)"
  by (simp add: length_of_def deref_def set_length_def nth_list_update)

lemma length_of_beyond: "\<not> i < length st \<Longrightarrow> length_of st i = PInf"
  by (simp add: length_of_def deref_def)

definition structure_of :: "'a store \<Rightarrow> ('a \<times> edge list \<times> edge list) list" where
  "structure_of st = map (\<lambda>n. (data n, inbound n, outbound n)) st"

lemma structure_of_set_length [simp]: "structure_of (set_length st i v) = structure_of st"
proof (cases "i < length st")
  case True
  then show ?thesis
    by (simp add: structure_of_def set_length_def deref_def map_update list_update_same_conv)
next
  case False
  then show ?thesis by (simp add: structure_of_def set_length_def list_update_beyond)
qed

lemma structure_of_outbound_of:
  "structure_of st' = structure_of st \<Longrightarrow> outbound_of st' n = outbound_of st n"
proof -
  assume s: "structure_of st' = structure_of st"
  then have len: "length st' = length st"
    using length_map [of "\<lambda>n. (data n, inbound n, outbound n)" st']
      length_map [of "\<lambda>n. (data n, inbound n, outbound n)" st]
    by (simp add: structure_of_def)
  show ?thesis
  proof (cases "n < length st")
    case True
    with s len have "structure_of st' ! n = structure_of st ! n" by simp
    with True len have "outbound (st' ! n) = outbound (st ! n)" by (simp add: structure_of_def)
    with True len show ?thesis by (simp add: outbound_of_def deref_def)
  next
    case False
    with len show ?thesis by (simp add: outbound_of_def deref_def)
  qed
qed

lemma init_node_cases:
  "fst (init_node incr start n (st, t)) = (if n \<noteq> start then set_length st n PInf else st)"
  by (simp add: init_node_def Let_def)

lemma init_lengths_fold:
  "fst (fold (init_node incr start) ns (st, t))
     = fold (\<lambda>n st. if n \<noteq> start then set_length st n PInf else st) ns st"
proof (induction ns arbitrary: st t)
  case Nil
  then show ?case by simp
next
  case (Cons n ns)
  obtain st1 t1 where r: "init_node incr start n (st, t) = (st1, t1)"
    by (cases "init_node incr start n (st, t)")
  with init_node_cases [of incr start n st t]
  have "st1 = (if n \<noteq> start then set_length st n PInf else st)" by simp
  with Cons.IH [of st1 t1] r show ?case by simp
qed

lemma fold_reset_structure:
  "structure_of (fold (\<lambda>n st. if n \<noteq> start then set_length st n PInf else st) ns st)
     = structure_of st"
  by (induction ns arbitrary: st) simp_all

lemma fold_reset_length [simp]:
  "length (fold (\<lambda>n st. if n \<noteq> start then set_length st n PInf else st) ns st) = length st"
  by (induction ns arbitrary: st) simp_all

lemma fold_reset_length_of:
  "length_of (fold (\<lambda>n st. if n \<noteq> start then set_length st n PInf else st) ns st) j
     = (if j \<in> set ns \<and> j \<noteq> start then PInf else length_of st j)"
proof (induction ns arbitrary: st)
  case Nil
  then show ?case by simp
next
  case (Cons n ns)
  show ?case
    using Cons.IH [of "if n \<noteq> start then set_length st n PInf else st"]
    by (auto simp: length_of_set_length length_of_beyond)
qed

text \<open>The store after the initialisation loop.\<close>

lemma init_lengths_structure:
  "structure_of (fst (init_lengths incr st g start t)) = structure_of st"
  by (simp add: init_lengths_def init_lengths_fold fold_reset_structure)

lemma init_lengths_length [simp]:
  "length (fst (init_lengths incr st g start t)) = length st"
  by (simp add: init_lengths_def init_lengths_fold)

lemma init_lengths_length_of:
  "length_of (fst (init_lengths incr st g start t)) j
     = (if j = start then (if start < length st then Fin 0 else PInf)
        else if j \<in> set (nodes g) then PInf else length_of st j)"
  by (auto simp: init_lengths_def init_lengths_fold fold_reset_length_of length_of_set_length
      length_of_beyond)

section \<open>Invariants of the loops\<close>

text \<open>What one pass of the body of \<open>for edge in current.outbound\<close> can do.\<close>

lemma relax_edge_cases:
  assumes "relax_edge current visited e (st, heap, t) = Inr (st', heap', t')"
  shows "(st' = st \<and> \<not> num_lt (num_add (length_of st current) (weight e)) (length_of st (head e))
          \<or> st' = set_length st (head e) (num_add (length_of st current) (weight e))
             \<and> num_lt (num_add (length_of st current) (weight e)) (length_of st (head e)))
       \<and> (heap' = heap \<and> node_in st' (head e) visited
          \<or> heap' = heappush st' heap (head e) \<and> \<not> node_in st' (head e) visited)"
  using assms
  by (auto simp: relax_edge_def Let_def split: if_splits sum.splits)

lemma relax_edge_total:
  "\<exists>st' heap' t'. relax_edge current visited e (st, heap, t) = Inr (st', heap', t')"
  by (auto simp: relax_edge_def Let_def add_heap_op_def split: if_splits sum.splits)

lemma relax_all_total:
  "\<exists>st' heap' t'. relax_all current visited es (st, heap, t) = Inr (st', heap', t')"
proof (induction es arbitrary: st heap t)
  case Nil
  then show ?case by simp
next
  case (Cons e es)
  obtain st1 heap1 t1 where "relax_edge current visited e (st, heap, t) = Inr (st1, heap1, t1)"
    using relax_edge_total by blast
  with Cons.IH [of st1 heap1 t1] show ?case by simp
qed

lemma relax_all_invariant:
  assumes "relax_all current visited es (st, heap, t) = Inr (st', heap', t')"
    and "J st heap"
    and "\<And>e st heap t st1 heap1 t1. e \<in> set es \<Longrightarrow> J st heap \<Longrightarrow>
          relax_edge current visited e (st, heap, t) = Inr (st1, heap1, t1) \<Longrightarrow> J st1 heap1"
  shows "J st' heap'"
  using assms
proof (induction es arbitrary: st heap t)
  case Nil
  then show ?case by simp
next
  case (Cons e es)
  from Cons.prems(1) obtain st1 heap1 t1 where
    r: "relax_edge current visited e (st, heap, t) = Inr (st1, heap1, t1)"
    and rest: "relax_all current visited es (st1, heap1, t1) = Inr (st', heap', t')"
    by (auto split: sum.splits)
  have j1: "J st1 heap1" using Cons.prems(3) [OF _ Cons.prems(2) r] by simp
  show ?case
  proof (rule Cons.IH [OF rest j1])
    fix e' st heap t st1 heap1 t1
    assume "e' \<in> set es" "J st heap"
      "relax_edge current visited e' (st, heap, t) = Inr (st1, heap1, t1)"
    then show "J st1 heap1" using Cons.prems(3) [of e' st heap t st1 heap1 t1] by simp
  qed
qed

lemma heap_loop_invariant:
  assumes "heap_loop st visited heap t = Inr (st', t')"
    and "I st visited heap"
    and skip: "\<And>st visited heap x heap1. I st visited heap \<Longrightarrow>
          heappop st heap = Inr (x, heap1) \<Longrightarrow> x \<in> set visited \<Longrightarrow> I st visited heap1"
    and visit: "\<And>st visited heap x heap1 t st2 heap2 t2. I st visited heap \<Longrightarrow>
          heappop st heap = Inr (x, heap1) \<Longrightarrow> x \<notin> set visited \<Longrightarrow>
          relax_all x (visited @ [x]) (outbound_of st x) (st, heap1, t) = Inr (st2, heap2, t2) \<Longrightarrow>
          I st2 (visited @ [x]) heap2"
  shows "\<exists>visited'. I st' visited' []"
  using assms(1,2)
proof (induction st visited heap t rule: heap_loop.induct)
  case (1 st visited heap t)
  show ?case
  proof (cases "0 < length heap")
    case False
    with "1.prems" show ?thesis by (subst (asm) heap_loop.simps) auto
  next
    case True
    from "1.prems"(1) True obtain u t1 x heap1 where
      hs: "heap_str st heap = Inr u"
      and ao: "add_heap_op (int (length heap)) t = Inr t1"
      and pop: "heappop st heap = Inr (x, heap1)"
      by (subst (asm) heap_loop.simps) (auto split: sum.splits)
    show ?thesis
    proof (cases "x \<in> set visited")
      case xv: True
      have run: "heap_loop st visited heap1 (incr_heap 1 t1) = Inr (st', t')"
        using "1.prems"(1) True hs ao pop xv
        by (subst (asm) heap_loop.simps) (simp add: Let_def)
      have "I st visited heap1" using skip [OF "1.prems"(2) pop xv] .
      then show ?thesis
        using "1.IH"(1) [OF True hs ao pop refl refl xv run] by simp
    next
      case xv: False
      from "1.prems"(1) True hs ao pop xv obtain st2 heap2 t2 where
        rel: "relax_all x (visited @ [x]) (outbound_of st x)
                (st, heap1, incr_heap 1 (incr_heap 1 t1)) = Inr (st2, heap2, t2)"
        and run: "heap_loop st2 (visited @ [x]) heap2 t2 = Inr (st', t')"
        by (subst (asm) heap_loop.simps) (auto simp: Let_def split: sum.splits)
      have "I st2 (visited @ [x]) heap2" using visit [OF "1.prems"(2) pop xv rel] .
      then show ?thesis
        using "1.IH"(2) [OF True hs ao pop refl refl xv refl refl rel refl refl run] by simp
    qed
  qed
qed

lemma simple_loop_invariant:
  assumes "I st visited"
    and "\<And>st visited t e w t1. I st visited \<Longrightarrow> get_best_edge st visited t = (Some e, w, t1) \<Longrightarrow>
          I (set_length st (head e) w) (visited @ [head e])"
  shows "\<exists>visited'. I (fst (simple_loop st visited t)) visited'"
  using assms(1)
proof (induction st visited t rule: simple_loop.induct)
  case (1 st visited t)
  obtain b w t1 where g: "get_best_edge st visited t = (b, w, t1)"
    by (cases "get_best_edge st visited t")
  show ?case
  proof (cases b)
    case None
    with g "1.prems" show ?thesis by (subst simple_loop.simps) (auto simp: Let_def)
  next
    case (Some e)
    have "I (set_length st (head e) w) (visited @ [head e])"
      using assms(2) [OF "1.prems"] g Some by simp
    then have "\<exists>visited'. I (fst (simple_loop (set_length st (head e) w) (visited @ [head e])
        (incr_simple 2 (incr_simple 1 t1)))) visited'"
      using "1.IH" [OF g [symmetric] refl refl Some] by simp
    then show ?thesis using g Some by (subst simple_loop.simps) (simp add: Let_def)
  qed
qed

section \<open>Well-formed graphs and reachability\<close>

text \<open>
  The invariant of the data model: the nodes of the graph are live objects, every edge of
  the graph has its tail and its head among the nodes of the graph, and the adjacency
  list of a node of the graph holds edges of the graph that leave this node (an edge
  registers itself in its tail's list when it is constructed).
\<close>

definition graph_ok :: "'a store \<Rightarrow> graph \<Rightarrow> bool" where
  "graph_ok st g =
     (list_all (\<lambda>n. n < length st) (nodes g)
      \<and> list_all (\<lambda>e. tail e \<in> set (nodes g) \<and> head e \<in> set (nodes g)) (edges g)
      \<and> list_all (\<lambda>n. list_all (\<lambda>e. e \<in> set (edges g) \<and> tail e = n) (outbound_of st n))
           (nodes g))"

definition nonneg_weights :: "graph \<Rightarrow> bool" where
  "nonneg_weights g = list_all (\<lambda>e. 0 \<le> weight e) (edges g)"

text \<open>Every reference held by an edge of an adjacency list points into the store.\<close>

definition heads_in_store :: "'a store \<Rightarrow> bool" where
  "heads_in_store st = list_all (\<lambda>n. list_all (\<lambda>e. head e < length st) (outbound n)) st"

text \<open>\<open>reach st s n\<close>: there is a directed path from \<open>s\<close> to \<open>n\<close> along outbound edges.\<close>

inductive reach :: "'a store \<Rightarrow> nat \<Rightarrow> nat \<Rightarrow> bool" for st :: "'a store" and s :: nat where
  reach_start: "reach st s s"
| reach_edge: "reach st s u \<Longrightarrow> e \<in> set (outbound_of st u) \<Longrightarrow> reach st s (head e)"

text \<open>Two isolated nodes P and Q (addresses 0 and 1), and the graph of both.\<close>

definition pair_store :: "string store" where
  "pair_store =
     [\<lparr>data = ''P'', inbound = [], outbound = [], length_n = Fin 7\<rparr>,
      \<lparr>data = ''Q'', inbound = [], outbound = [], length_n = Fin 7\<rparr>]"

definition pair_graph :: graph where
  "pair_graph = \<lparr>nodes = [0, 1], edges = []\<rparr>"

definition nonneg :: "number \<Rightarrow> bool" where
  "nonneg x = (\<not> num_lt x (Fin 0))"

lemma nonneg_num_add: "nonneg a \<Longrightarrow> 0 \<le> w \<Longrightarrow> nonneg (num_add a w)"
  by (cases a) (simp_all add: nonneg_def)

lemma graph_ok_outbound:
  assumes "graph_ok st g" and "n \<in> set (nodes g)" and "e \<in> set (outbound_of st n)"
  shows "e \<in> set (edges g)" and "head e \<in> set (nodes g)" and "tail e = n"
proof -
  from assms show e: "e \<in> set (edges g)" and "tail e = n"
    by (auto simp: graph_ok_def list_all_iff)
  from e assms(1) show "head e \<in> set (nodes g)"
    by (auto simp: graph_ok_def list_all_iff)
qed

lemma structure_of_length: "structure_of st' = structure_of st \<Longrightarrow> length st' = length st"
  using length_map [of "\<lambda>n. (data n, inbound n, outbound n)" st']
    length_map [of "\<lambda>n. (data n, inbound n, outbound n)" st]
  by (simp add: structure_of_def)

lemma simple_structure:
  "structure_of (fst (simple_shortest_path st g start t)) = structure_of st"
proof -
  obtain st1 t2 where i: "init_lengths incr_simple st g start (incr_simple 2 t) = (st1, t2)"
    by (cases "init_lengths incr_simple st g start (incr_simple 2 t)")
  then have s1: "structure_of st1 = structure_of st"
    using init_lengths_structure [of incr_simple st g start "incr_simple 2 t"] by simp
  have "\<exists>visited'::nat list. structure_of (fst (simple_loop st1 [start] t2)) = structure_of st"
    using simple_loop_invariant [of "\<lambda>s v. structure_of s = structure_of st" st1 "[start]" t2] s1
    by simp
  with i show ?thesis by (simp add: simple_shortest_path_def Let_def)
qed

lemma relax_all_structure:
  assumes "relax_all x vis es (st, heap, t) = Inr (st', heap', t')"
  shows "structure_of st' = structure_of st"
proof (rule relax_all_invariant [of x vis es st heap t st' heap' t'
      "\<lambda>s h. structure_of s = structure_of st", OF assms])
  show "structure_of st = structure_of st" by simp
next
  fix e s h t s1 h1 t1
  assume "structure_of s = structure_of st"
    and "relax_edge x vis e (s, h, t) = Inr (s1, h1, t1)"
  then show "structure_of s1 = structure_of st"
    using relax_edge_cases [of x vis e s h t s1 h1 t1] by auto
qed

lemma heap_structure:
  assumes "heap_shortest_path st g start t = Inr (st', t')"
  shows "structure_of st' = structure_of st"
proof -
  obtain st1 t2 where i: "init_lengths incr_heap st g start (incr_heap 3 t) = (st1, t2)"
    by (cases "init_lengths incr_heap st g start (incr_heap 3 t)")
  then have s1: "structure_of st1 = structure_of st"
    using init_lengths_structure [of incr_heap st g start "incr_heap 3 t"] by simp
  from assms i have run: "heap_loop st1 [] [start] t2 = Inr (st', t')"
    by (simp add: heap_shortest_path_def Let_def)
  have "\<exists>visited'::nat list. structure_of st' = structure_of st"
  proof (rule heap_loop_invariant [of st1 "[]" "[start]" t2 st' t'
        "\<lambda>s v h. structure_of s = structure_of st", OF run])
    show "structure_of st1 = structure_of st" by (rule s1)
  next
    fix s :: "'a store"
    assume "structure_of s = structure_of st"
    then show "structure_of s = structure_of st" .
  next
    fix s v h x h1 t s2 h2 t2
    assume "structure_of s = structure_of st"
      and "relax_all x (v @ [x]) (outbound_of s x) (s, h1, t) = Inr (s2, h2, t2)"
    then show "structure_of s2 = structure_of st"
      using relax_all_structure [of x "v @ [x]" "outbound_of s x" s h1 t s2 h2 t2] by simp
  qed
  then show ?thesis by simp
qed

lemma heap_lengths_run:
  "heap_lengths st g start t = Inr ls \<Longrightarrow>
     \<exists>st' t'. heap_shortest_path st g start t = Inr (st', t') \<and> lengths st' = ls"
  by (auto simp: heap_lengths_def split: sum.splits)

lemma heap_pair_run: "heap_lengths pair_store pair_graph 0 t0 = Inr [Fin 0, PInf]"
  by code_simp

lemma heap_chain_run: "heap_lengths chain_store chain_graph 0 t0 = Inr [Fin 0, Fin 0, PInf]"
  by code_simp

lemma simple_start_zero:
  assumes "start < length st"
  shows "length_of (fst (simple_shortest_path st g start t)) start = Fin 0"
proof -
  obtain st1 t2 where i: "init_lengths incr_simple st g start (incr_simple 2 t) = (st1, t2)"
    by (cases "init_lengths incr_simple st g start (incr_simple 2 t)")
  have "length_of (fst (init_lengths incr_simple st g start (incr_simple 2 t))) start = Fin 0"
    using assms by (simp add: init_lengths_length_of)
  with i have s1: "start \<in> set [start] \<and> length_of st1 start = Fin 0" by simp
  have "\<exists>visited'. start \<in> set visited'
      \<and> length_of (fst (simple_loop st1 [start] t2)) start = Fin 0"
  proof (rule simple_loop_invariant [of "\<lambda>s v. start \<in> set v \<and> length_of s start = Fin 0"
        st1 "[start]" t2, OF s1])
    fix s v t e w t1
    assume inv: "start \<in> set v \<and> length_of s start = Fin 0"
      and g: "get_best_edge s v t = (Some e, w, t1)"
    from get_best_edge_candidate [OF g] have "head e \<notin> set v" by (simp add: candidate_def)
    with inv have "head e \<noteq> start" by auto
    with inv show "start \<in> set (v @ [head e])
        \<and> length_of (set_length s (head e) w) start = Fin 0"
      by (simp add: length_of_set_length)
  qed
  with i show ?thesis by (simp add: simple_shortest_path_def Let_def)
qed

definition heap_inv :: "'a store \<Rightarrow> graph \<Rightarrow> nat \<Rightarrow> 'a store \<Rightarrow> nat list \<Rightarrow> bool" where
  "heap_inv st0 g start s h =
     (set h \<subseteq> set (nodes g)
      \<and> (\<forall>n \<in> set (nodes g). nonneg (length_of s n))
      \<and> length_of s start = Fin 0
      \<and> structure_of s = structure_of st0)"

lemma relax_edge_heap_inv:
  assumes ok: "graph_ok st0 g" and nn: "nonneg_weights g"
    and x: "x \<in> set (nodes g)" and e: "e \<in> set (outbound_of st0 x)"
    and inv: "heap_inv st0 g start s h"
    and r: "relax_edge x vis e (s, h, t) = Inr (s1, h1, t1)"
  shows "heap_inv st0 g start s1 h1"
proof -
  from graph_ok_outbound [OF ok x e] have eg: "e \<in> set (edges g)"
    and hd: "head e \<in> set (nodes g)" by simp_all
  from eg nn have w: "0 \<le> weight e" by (simp add: nonneg_weights_def list_all_iff)
  from inv x have "nonneg (length_of s x)" by (simp add: heap_inv_def)
  then have c: "nonneg (num_add (length_of s x) (weight e))" using w by (rule nonneg_num_add)
  from inv have z: "length_of s start = Fin 0" by (simp add: heap_inv_def)
  from relax_edge_cases [OF r] have
    st: "s1 = s \<or> s1 = set_length s (head e) (num_add (length_of s x) (weight e))
          \<and> num_lt (num_add (length_of s x) (weight e)) (length_of s (head e))"
    and hp: "h1 = h \<or> h1 = heappush s1 h (head e)" by auto
  have h1: "set h1 \<subseteq> set (nodes g)"
    using hp set_heappush [of s1 h "head e"] hd inv by (auto simp: heap_inv_def)
  from st show ?thesis
  proof
    assume "s1 = s"
    with inv h1 show ?thesis by (simp add: heap_inv_def)
  next
    assume up: "s1 = set_length s (head e) (num_add (length_of s x) (weight e))
      \<and> num_lt (num_add (length_of s x) (weight e)) (length_of s (head e))"
    have ns: "head e \<noteq> start"
    proof
      assume "head e = start"
      with up z have "num_lt (num_add (length_of s x) (weight e)) (Fin 0)" by simp
      with c show False by (simp add: nonneg_def)
    qed
    have "\<forall>n \<in> set (nodes g). nonneg (length_of s1 n)"
      using up c inv by (auto simp: length_of_set_length heap_inv_def)
    moreover have "length_of s1 start = Fin 0"
      using up ns z by (simp add: length_of_set_length)
    moreover have "structure_of s1 = structure_of st0"
      using up inv by (simp add: heap_inv_def)
    ultimately show ?thesis using h1 by (simp add: heap_inv_def)
  qed
qed

lemma heap_start_zero:
  assumes ok: "graph_ok st g" and nn: "nonneg_weights g" and mem: "start \<in> set (nodes g)"
    and run0: "heap_shortest_path st g start t = Inr (st', t')"
  shows "length_of st' start = Fin 0"
proof -
  obtain st1 t2 where i: "init_lengths incr_heap st g start (incr_heap 3 t) = (st1, t2)"
    by (cases "init_lengths incr_heap st g start (incr_heap 3 t)")
  from run0 i have run: "heap_loop st1 [] [start] t2 = Inr (st', t')"
    by (simp add: heap_shortest_path_def Let_def)
  from ok mem have lt: "start < length st" by (simp add: graph_ok_def list_all_iff)
  have st1: "st1 = fst (init_lengths incr_heap st g start (incr_heap 3 t))" using i by simp
  have i1: "heap_inv st g start st1 [start]"
    unfolding heap_inv_def st1
    using mem lt by (simp add: init_lengths_length_of init_lengths_structure nonneg_def)
  have "\<exists>visited'::nat list. heap_inv st g start st' []"
  proof (rule heap_loop_invariant [of st1 "[]" "[start]" t2 st' t'
        "\<lambda>s v h. heap_inv st g start s h", OF run i1])
    fix s :: "'a store" and v h :: "nat list" and x h1
    assume "heap_inv st g start s h" and "heappop s h = Inr (x, h1)"
    then show "heap_inv st g start s h1"
      using heappop_props(2) [of s h x h1] by (auto simp: heap_inv_def)
  next
    fix s v h x h1 t s2 h2 t2
    assume inv: "heap_inv st g start s h" and pop: "heappop s h = Inr (x, h1)"
      and rel: "relax_all x (v @ [x]) (outbound_of s x) (s, h1, t) = Inr (s2, h2, t2)"
    from inv heappop_props(1) [OF pop] have x: "x \<in> set (nodes g)" by (auto simp: heap_inv_def)
    from inv have "structure_of s = structure_of st" by (simp add: heap_inv_def)
    then have ob: "outbound_of s x = outbound_of st x" by (rule structure_of_outbound_of)
    from inv heappop_props(2) [OF pop] have j0: "heap_inv st g start s h1"
      by (auto simp: heap_inv_def)
    show "heap_inv st g start s2 h2"
    proof (rule relax_all_invariant [of x "v @ [x]" "outbound_of s x" s h1 t s2 h2 t2
          "\<lambda>s h. heap_inv st g start s h", OF rel j0])
      fix e sa ha ta sb hb tb
      assume "e \<in> set (outbound_of s x)" and "heap_inv st g start sa ha"
        and "relax_edge x (v @ [x]) e (sa, ha, ta) = Inr (sb, hb, tb)"
      then show "heap_inv st g start sb hb"
        using relax_edge_heap_inv [OF ok nn x, of e start sa ha "v @ [x]" ta sb hb tb] ob
        by simp
    qed
  qed
  then show ?thesis by (simp add: heap_inv_def)
qed

text \<open>
  Lengths off the reachable part: a run writes the length of a node only when the node is
  the head of an edge that leaves a reachable node.
\<close>

definition off_reach :: "'a store \<Rightarrow> nat \<Rightarrow> 'a store \<Rightarrow> 'a store \<Rightarrow> bool" where
  "off_reach st0 start s1 s =
     ((\<forall>n. \<not> reach st0 start n \<longrightarrow> length_of s n = length_of s1 n)
      \<and> structure_of s = structure_of st0)"

lemma off_reach_set_length:
  assumes "off_reach st0 start s1 s" and "reach st0 start n"
  shows "off_reach st0 start s1 (set_length s n v)"
  using assms by (auto simp: off_reach_def length_of_set_length)

lemma simple_unreachable:
  assumes n: "n \<in> set (nodes g)" and nr: "\<not> reach st start n"
  shows "length_of (fst (simple_shortest_path st g start t)) n = PInf"
proof -
  obtain st1 t2 where i: "init_lengths incr_simple st g start (incr_simple 2 t) = (st1, t2)"
    by (cases "init_lengths incr_simple st g start (incr_simple 2 t)")
  then have st1: "st1 = fst (init_lengths incr_simple st g start (incr_simple 2 t))" by simp
  from nr have ns: "n \<noteq> start" using reach_start [of st start] by auto
  have l1: "length_of st1 n = PInf" using n ns by (simp add: st1 init_lengths_length_of)
  have i1: "(\<forall>v \<in> set [start]. reach st start v) \<and> off_reach st start st1 st1"
    using reach_start [of st start] by (simp add: off_reach_def st1 init_lengths_structure)
  have "\<exists>visited'. (\<forall>v \<in> set visited'. reach st start v)
      \<and> off_reach st start st1 (fst (simple_loop st1 [start] t2))"
  proof (rule simple_loop_invariant [of
        "\<lambda>s v. (\<forall>u \<in> set v. reach st start u) \<and> off_reach st start st1 s"
        st1 "[start]" t2, OF i1])
    fix s v t e w t1
    assume inv: "(\<forall>u \<in> set v. reach st start u) \<and> off_reach st start st1 s"
      and g: "get_best_edge s v t = (Some e, w, t1)"
    from get_best_edge_candidate [OF g] obtain u where u: "u \<in> set v"
      and e: "e \<in> set (outbound_of s u)" by (auto simp: candidate_def)
    from inv have "structure_of s = structure_of st" by (simp add: off_reach_def)
    then have "outbound_of s u = outbound_of st u" by (rule structure_of_outbound_of)
    with e u inv have r: "reach st start (head e)" by (auto intro: reach_edge)
    with inv show "(\<forall>u \<in> set (v @ [head e]). reach st start u)
        \<and> off_reach st start st1 (set_length s (head e) w)"
      by (auto intro: off_reach_set_length)
  qed
  then have "length_of (fst (simple_loop st1 [start] t2)) n = length_of st1 n"
    using nr by (auto simp: off_reach_def)
  with l1 i show ?thesis by (simp add: simple_shortest_path_def Let_def)
qed

lemma relax_edge_off_reach:
  assumes x: "reach st0 start x" and e: "e \<in> set (outbound_of st0 x)"
    and inv: "(\<forall>u \<in> set h. reach st0 start u) \<and> off_reach st0 start s1 s"
    and r: "relax_edge x vis e (s, h, t) = Inr (sb, hb, tb)"
  shows "(\<forall>u \<in> set hb. reach st0 start u) \<and> off_reach st0 start s1 sb"
proof -
  from x e have hd: "reach st0 start (head e)" by (rule reach_edge)
  from relax_edge_cases [OF r] have
    st: "sb = s \<or> sb = set_length s (head e) (num_add (length_of s x) (weight e))"
    and hp: "hb = h \<or> hb = heappush sb h (head e)" by auto
  from st inv hd have "off_reach st0 start s1 sb" by (auto intro: off_reach_set_length)
  moreover have "\<forall>u \<in> set hb. reach st0 start u"
    using hp set_heappush [of sb h "head e"] hd inv by auto
  ultimately show ?thesis by simp
qed

lemma heap_unreachable:
  assumes n: "n \<in> set (nodes g)" and nr: "\<not> reach st start n"
    and run0: "heap_shortest_path st g start t = Inr (st', t')"
  shows "length_of st' n = PInf"
proof -
  obtain st1 t2 where i: "init_lengths incr_heap st g start (incr_heap 3 t) = (st1, t2)"
    by (cases "init_lengths incr_heap st g start (incr_heap 3 t)")
  then have st1: "st1 = fst (init_lengths incr_heap st g start (incr_heap 3 t))" by simp
  from run0 i have run: "heap_loop st1 [] [start] t2 = Inr (st', t')"
    by (simp add: heap_shortest_path_def Let_def)
  from nr have ns: "n \<noteq> start" using reach_start [of st start] by auto
  have l1: "length_of st1 n = PInf" using n ns by (simp add: st1 init_lengths_length_of)
  have i1: "(\<forall>u \<in> set [start]. reach st start u) \<and> off_reach st start st1 st1"
    using reach_start [of st start] by (simp add: off_reach_def st1 init_lengths_structure)
  have "\<exists>visited'::nat list. (\<forall>u \<in> set []. reach st start u) \<and> off_reach st start st1 st'"
  proof (rule heap_loop_invariant [of st1 "[]" "[start]" t2 st' t'
        "\<lambda>s v h. (\<forall>u \<in> set h. reach st start u) \<and> off_reach st start st1 s", OF run i1])
    fix s :: "'a store" and v h :: "nat list" and x h1
    assume "(\<forall>u \<in> set h. reach st start u) \<and> off_reach st start st1 s"
      and "heappop s h = Inr (x, h1)"
    then show "(\<forall>u \<in> set h1. reach st start u) \<and> off_reach st start st1 s"
      using heappop_props(2) [of s h x h1] by auto
  next
    fix s v h x h1 t s2 h2 t2
    assume inv: "(\<forall>u \<in> set h. reach st start u) \<and> off_reach st start st1 s"
      and pop: "heappop s h = Inr (x, h1)"
      and rel: "relax_all x (v @ [x]) (outbound_of s x) (s, h1, t) = Inr (s2, h2, t2)"
    from inv heappop_props(1) [OF pop] have x: "reach st start x" by auto
    from inv have "structure_of s = structure_of st" by (simp add: off_reach_def)
    then have ob: "outbound_of s x = outbound_of st x" by (rule structure_of_outbound_of)
    from inv heappop_props(2) [OF pop] have
      j0: "(\<forall>u \<in> set h1. reach st start u) \<and> off_reach st start st1 s" by auto
    show "(\<forall>u \<in> set h2. reach st start u) \<and> off_reach st start st1 s2"
    proof (rule relax_all_invariant [of x "v @ [x]" "outbound_of s x" s h1 t s2 h2 t2
          "\<lambda>s h. (\<forall>u \<in> set h. reach st start u) \<and> off_reach st start st1 s", OF rel j0])
      fix e sa ha ta sb hb tb
      assume "e \<in> set (outbound_of s x)"
        and "(\<forall>u \<in> set ha. reach st start u) \<and> off_reach st start st1 sa"
        and "relax_edge x (v @ [x]) e (sa, ha, ta) = Inr (sb, hb, tb)"
      then show "(\<forall>u \<in> set hb. reach st start u) \<and> off_reach st start st1 sb"
        using relax_edge_off_reach [OF x, of e ha st1 sa "v @ [x]" ta sb hb tb] ob by simp
    qed
  qed
  then have "length_of st' n = length_of st1 n" using nr by (auto simp: off_reach_def)
  with l1 show ?thesis by simp
qed

text \<open>
  The heap variant runs to completion: every node of the heap has a finite length, so
  \<open>heap_str\<close> does not raise, and \<open>add_heap_op\<close> is never called with 0.
\<close>

definition fin_inv :: "'a store \<Rightarrow> nat set \<Rightarrow> 'a store \<Rightarrow> nat list \<Rightarrow> bool" where
  "fin_inv st0 N s h =
     (set h \<subseteq> N \<and> (\<forall>n \<in> set h. length_of s n \<noteq> PInf) \<and> structure_of s = structure_of st0)"

lemma num_add_finite: "a \<noteq> PInf \<Longrightarrow> num_add a w \<noteq> PInf"
  by (cases a) simp_all

lemma not_num_lt_finite: "c \<noteq> PInf \<Longrightarrow> \<not> num_lt c b \<Longrightarrow> b \<noteq> PInf"
  by (cases c; cases b) simp_all

lemma relax_edge_fin_inv:
  assumes hd: "head e \<in> N" and inr: "\<forall>n \<in> N. n < length st0"
    and inv: "fin_inv st0 N s h \<and> length_of s x \<noteq> PInf"
    and r: "relax_edge x vis e (s, h, t) = Inr (sb, hb, tb)"
  shows "fin_inv st0 N sb hb \<and> length_of sb x \<noteq> PInf"
proof -
  let ?c = "num_add (length_of s x) (weight e)"
  from inv have "length_of s x \<noteq> PInf" by simp
  then have c: "?c \<noteq> PInf" by (rule num_add_finite)
  from inv have "structure_of s = structure_of st0" by (simp add: fin_inv_def)
  then have "length s = length st0" by (rule structure_of_length)
  with hd inr have hl: "head e < length s" by simp
  from relax_edge_cases [OF r] have
    st: "sb = s \<and> \<not> num_lt ?c (length_of s (head e)) \<or> sb = set_length s (head e) ?c"
    and hp: "hb = h \<or> hb = heappush sb h (head e)" by auto
  have he: "length_of sb (head e) \<noteq> PInf"
    using st c hl not_num_lt_finite [of ?c "length_of s (head e)"]
    by (auto simp: length_of_set_length split: if_splits)
  have keep: "\<And>n. length_of s n \<noteq> PInf \<Longrightarrow> length_of sb n \<noteq> PInf"
    using st c by (auto simp: length_of_set_length split: if_splits)
  have "set hb \<subseteq> insert (head e) (set h)"
    using hp set_heappush [of sb h "head e"] by auto
  then have "set hb \<subseteq> N" and "\<forall>n \<in> set hb. length_of sb n \<noteq> PInf"
    using hd inv he keep by (auto simp: fin_inv_def)
  moreover have "structure_of sb = structure_of st0" using st inv by (auto simp: fin_inv_def)
  ultimately show ?thesis using keep inv by (simp add: fin_inv_def)
qed

lemma heap_loop_total:
  assumes closed: "\<forall>n \<in> N. n < length st0 \<and> (\<forall>e \<in> set (outbound_of st0 n). head e \<in> N)"
    and inv: "fin_inv st0 N st heap"
  shows "\<exists>st' t'. heap_loop st visited heap t = Inr (st', t')"
  using inv
proof (induction st visited heap t rule: heap_loop.induct)
  case (1 st visited heap t)
  show ?case
  proof (cases "0 < length heap")
    case False
    then show ?thesis by (subst heap_loop.simps) simp
  next
    case True
    have hs: "heap_str st heap = Inr ()"
      using "1.prems" by (auto simp: heap_str_def fin_inv_def list_ex_iff)
    obtain t1 where ao: "add_heap_op (int (length heap)) t = Inr t1"
      using True by (auto simp: add_heap_op_def)
    from True obtain x heap1 where pop: "heappop st heap = Inr (x, heap1)"
      using heappop_nonempty [of heap st] by auto
    from "1.prems" heappop_props(2) [OF pop] have j0: "fin_inv st0 N st heap1"
      by (auto simp: fin_inv_def)
    show ?thesis
    proof (cases "x \<in> set visited")
      case xv: True
      from "1.IH"(1) [OF True hs ao pop refl refl xv j0]
      obtain st' t' where "heap_loop st visited heap1 (incr_heap 1 t1) = Inr (st', t')" by blast
      then show ?thesis
        using True hs ao pop xv by (subst heap_loop.simps) (simp add: Let_def)
    next
      case xv: False
      obtain st2 heap2 t2 where
        rel: "relax_all x (visited @ [x]) (outbound_of st x)
                (st, heap1, incr_heap 1 (incr_heap 1 t1)) = Inr (st2, heap2, t2)"
        using relax_all_total by blast
      from "1.prems" heappop_props(1) [OF pop] have xN: "x \<in> N"
        and xf: "length_of st x \<noteq> PInf" by (auto simp: fin_inv_def)
      from "1.prems" have "structure_of st = structure_of st0" by (simp add: fin_inv_def)
      then have ob: "outbound_of st x = outbound_of st0 x" by (rule structure_of_outbound_of)
      from j0 xf have j1: "fin_inv st0 N st heap1 \<and> length_of st x \<noteq> PInf" by simp
      have "fin_inv st0 N st2 heap2 \<and> length_of st2 x \<noteq> PInf"
      proof (rule relax_all_invariant [of x "visited @ [x]" "outbound_of st x" st heap1
            "incr_heap 1 (incr_heap 1 t1)" st2 heap2 t2
            "\<lambda>s h. fin_inv st0 N s h \<and> length_of s x \<noteq> PInf", OF rel j1])
        fix e sa ha ta sb hb tb
        assume e: "e \<in> set (outbound_of st x)"
          and a: "fin_inv st0 N sa ha \<and> length_of sa x \<noteq> PInf"
          and r: "relax_edge x (visited @ [x]) e (sa, ha, ta) = Inr (sb, hb, tb)"
        from e ob xN closed have hd: "head e \<in> N" by auto
        from closed have inr: "\<forall>n \<in> N. n < length st0" by simp
        show "fin_inv st0 N sb hb \<and> length_of sb x \<noteq> PInf"
          by (rule relax_edge_fin_inv [OF hd inr a r])
      qed
      then have j2: "fin_inv st0 N st2 heap2" by simp
      from "1.IH"(2) [OF True hs ao pop refl refl xv refl refl rel refl refl j2]
      obtain st' t' where "heap_loop st2 (visited @ [x]) heap2 t2 = Inr (st', t')" by blast
      then show ?thesis
        using True hs ao pop xv rel by (subst heap_loop.simps) (simp add: Let_def)
    qed
  qed
qed

lemma heap_total:
  assumes closed: "\<forall>n \<in> N. n < length st \<and> (\<forall>e \<in> set (outbound_of st n). head e \<in> N)"
    and mem: "start \<in> N"
  shows "\<exists>st' t'. heap_shortest_path st g start t = Inr (st', t')"
proof -
  obtain st1 t2 where i: "init_lengths incr_heap st g start (incr_heap 3 t) = (st1, t2)"
    by (cases "init_lengths incr_heap st g start (incr_heap 3 t)")
  then have st1: "st1 = fst (init_lengths incr_heap st g start (incr_heap 3 t))" by simp
  from closed mem have "start < length st" by simp
  then have "fin_inv st N st1 [start]"
    using mem by (simp add: fin_inv_def st1 init_lengths_length_of init_lengths_structure)
  from heap_loop_total [OF closed this, of "[]" t2] i show ?thesis
    by (simp add: heap_shortest_path_def Let_def)
qed

lemma heap_total_graph:
  assumes ok: "graph_ok st g" and mem: "start \<in> set (nodes g)"
  shows "\<exists>st' t'. heap_shortest_path st g start t = Inr (st', t')"
proof (rule heap_total [of "set (nodes g)", OF _ mem])
  show "\<forall>n \<in> set (nodes g). n < length st \<and> (\<forall>e \<in> set (outbound_of st n). head e \<in> set (nodes g))"
    using ok graph_ok_outbound(2) [OF ok] by (auto simp: graph_ok_def list_all_iff)
qed

lemma heap_total_store:
  assumes hs: "heads_in_store st" and lt: "start < length st"
  shows "\<exists>st' t'. heap_shortest_path st g start t = Inr (st', t')"
proof (rule heap_total [of "{..<length st}"])
  show "\<forall>n \<in> {..<length st}. n < length st \<and> (\<forall>e \<in> set (outbound_of st n). head e \<in> {..<length st})"
    using hs by (auto simp: heads_in_store_def list_all_iff outbound_of_def deref_def)
  show "start \<in> {..<length st}" using lt by simp
qed

lemma mset_shift_down:
  assumes "pp < pos" and "pos < length h"
  shows "mset (h[pos := h ! pp, pp := x]) = mset (h[pos := x])"
proof -
  from assms have ppl: "pp < length h" and ne: "pp \<noteq> pos" by simp_all
  have "mset (h[pos := h ! pp, pp := x])
      = add_mset x (mset (h[pos := h ! pp]) - {#(h[pos := h ! pp]) ! pp#})"
    using ppl by (subst mset_update) simp_all
  also have "(h[pos := h ! pp]) ! pp = h ! pp" using ne by simp
  also have "mset (h[pos := h ! pp]) = add_mset (h ! pp) (mset h - {#h ! pos#})"
    using assms(2) by (rule mset_update)
  also have "add_mset (h ! pp) (mset h - {#h ! pos#}) - {#h ! pp#} = mset h - {#h ! pos#}"
    by simp
  also have "add_mset x (mset h - {#h ! pos#}) = mset (h[pos := x])"
    using assms(2) by (rule mset_update [symmetric])
  finally show ?thesis .
qed

lemma mset_siftdown_loop:
  "pos < length h \<Longrightarrow> mset (siftdown_loop st h startpos pos x) = mset (h[pos := x])"
proof (induction st h startpos pos x rule: siftdown_loop.induct)
  case (1 st h startpos pos newitem)
  define pp where "pp = (pos - 1) div 2"
  show ?case
  proof (cases "startpos < pos \<and> node_lt (deref st newitem) (deref st (h ! pp))")
    case True
    then have pp: "pp < pos" by (auto simp: pp_def)
    with "1.prems" have ppl: "pp < length (h[pos := h ! pp])" by simp
    from True have a: "startpos < pos"
      and b: "node_lt (deref st newitem) (deref st (h ! pp))" by simp_all
    have "mset (siftdown_loop st (h[pos := h ! pp]) startpos pp newitem)
        = mset (h[pos := h ! pp, pp := newitem])"
      using "1.IH" [OF a pp_def refl _ ppl] b by (simp add: pp_def)
    also have "\<dots> = mset (h[pos := newitem])"
      using pp "1.prems" by (rule mset_shift_down)
    finally have "mset (siftdown_loop st (h[pos := h ! pp]) startpos pp newitem)
        = mset (h[pos := newitem])" .
    moreover have "siftdown_loop st h startpos pos newitem
        = siftdown_loop st (h[pos := h ! pp]) startpos pp newitem"
      using a b by (subst siftdown_loop.simps) (simp add: Let_def pp_def)
    ultimately show ?thesis by simp
  next
    case False
    then have "siftdown_loop st h startpos pos newitem = h[pos := newitem]"
      by (subst siftdown_loop.simps) (auto simp: Let_def pp_def)
    then show ?thesis by simp
  qed
qed

lemma mset_heappush: "mset (heappush st h x) = add_mset x (mset h)"
proof -
  have "mset (siftdown_loop st (h @ [x]) 0 (length h) x) = mset ((h @ [x])[length h := x])"
    by (rule mset_siftdown_loop) simp
  then show ?thesis by (simp add: heappush_def siftdown_def)
qed

lemma relax_chain_AB:
  "relax_edge 0 [0] edge_AB (chain_init, [], t0)
     = Inr (set_length chain_init 1 (Fin 0), [], incr_heap 1 (incr_heap 3 t0))"
  by code_simp

lemma node_in_iff:
  "node_in st x xs \<longleftrightarrow> x \<in> set xs \<or> (\<exists>v \<in> set xs. length_of st v = length_of st x)"
  by (auto simp: node_in_def node_eq_def length_of_def list_ex_iff)

section \<open>Candidate selection, as the specification words it\<close>











lemma num_lt_irrefl [simp]: "\<not> num_lt a a"
  by (cases a) simp_all




text \<open>
  The states in which \<open>simple_shortest_path\<close> calls \<open>get_best_edge\<close>: the store and the
  visited list at the start of an iteration of its \<open>while True\<close> loop.
\<close>

inductive simple_iter :: "'a store \<Rightarrow> graph \<Rightarrow> nat \<Rightarrow> 'a store \<Rightarrow> nat list \<Rightarrow> bool"
  for st0 :: "'a store" and g :: graph and start :: nat where
  iter_first: "simple_iter st0 g start (fst (init_lengths incr_simple st0 g start t)) [start]"
| iter_next: "simple_iter st0 g start st visited \<Longrightarrow>
      get_best_edge st visited t = (Some e, w, t') \<Longrightarrow>
      simple_iter st0 g start (set_length st (head e) w) (visited @ [head e])"












section \<open>The relaxation step in general\<close>

text \<open>
  What the body of \<open>for edge in current.outbound\<close> does in general. When the criterion
  (the tail's length plus the weight) is strictly less than the head's length, the head's
  length becomes the criterion, and no other length changes. The push is decided by
  \<open>edge.head not in visited\<close>: a head that is not visited, and whose length differs from
  the length of every visited node, is pushed, whether or not it is in the heap already
  (the heap gains one more occurrence of it); a head that is visited is not pushed.
\<close>

lemma relax_edge_update_then_gate:
  assumes "head e < length st"
  shows "\<exists>st' heap' t'. relax_edge current visited e (st, heap, t) = Inr (st', heap', t')
    \<and> (num_lt (num_add (length_of st current) (weight e)) (length_of st (head e)) \<longrightarrow>
         length_of st' (head e) = num_add (length_of st current) (weight e))
    \<and> (\<not> num_lt (num_add (length_of st current) (weight e)) (length_of st (head e)) \<longrightarrow>
         length_of st' (head e) = length_of st (head e))
    \<and> (\<forall>n. n \<noteq> head e \<longrightarrow> length_of st' n = length_of st n)
    \<and> (head e \<notin> set visited \<and> (\<forall>v \<in> set visited. length_of st' v \<noteq> length_of st' (head e)) \<longrightarrow>
         heap' = heappush st' heap (head e) \<and> mset heap' = add_mset (head e) (mset heap))
    \<and> (head e \<in> set visited \<longrightarrow> heap' = heap)"
proof -
  obtain st' heap' t' where r: "relax_edge current visited e (st, heap, t) = Inr (st', heap', t')"
    using relax_edge_total by blast
  let ?c = "num_add (length_of st current) (weight e)"
  from relax_edge_cases [OF r] have
    st: "st' = st \<and> \<not> num_lt ?c (length_of st (head e))
          \<or> st' = set_length st (head e) ?c \<and> num_lt ?c (length_of st (head e))"
    and hp: "heap' = heap \<and> node_in st' (head e) visited
          \<or> heap' = heappush st' heap (head e) \<and> \<not> node_in st' (head e) visited" by auto
  have a: "num_lt ?c (length_of st (head e)) \<longrightarrow> length_of st' (head e) = ?c"
    using st assms by (auto simp: length_of_set_length)
  have b: "\<not> num_lt ?c (length_of st (head e)) \<longrightarrow> length_of st' (head e) = length_of st (head e)"
    using st by auto
  have c: "\<forall>n. n \<noteq> head e \<longrightarrow> length_of st' n = length_of st n"
    using st by (auto simp: length_of_set_length)
  have d: "head e \<notin> set visited \<and> (\<forall>v \<in> set visited. length_of st' v \<noteq> length_of st' (head e)) \<longrightarrow>
      heap' = heappush st' heap (head e) \<and> mset heap' = add_mset (head e) (mset heap)"
    using hp by (auto simp: node_in_iff mset_heappush)
  have f: "head e \<in> set visited \<longrightarrow> heap' = heap"
    using hp by (auto simp: node_in_iff)
  from r a b c d f show ?thesis by blast
qed

lemma relax_edge_update_then_gate_example:
  "head edge_BC < length (set_length chain_init 1 (Fin 5))
   \<and> head edge_BC \<notin> set [0, 1]
   \<and> head edge_BC \<in> set [2]
   \<and> (\<exists>st' heap' t'.
        relax_edge 1 [0, 1] edge_BC (set_length chain_init 1 (Fin 5), [2], t0) = Inr (st', heap', t')
        \<and> length_of st' 2 = Fin 6 \<and> mset heap' = {#2, 2#})"
proof -
  let ?S = "set_length chain_init 1 (Fin 5)"
  have l: "head edge_BC < length ?S" by code_simp
  have h: "head edge_BC = 2" "weight edge_BC = 1" by (simp_all add: edge_BC_def)
  have s: "length_of ?S 0 = Fin 0" "length_of ?S 1 = Fin 5" "length_of ?S 2 = PInf"
    by code_simp+
  from relax_edge_update_then_gate [OF l, of 1 "[0, 1]" "[2]" t0]
  obtain st' heap' t' where
    r: "relax_edge 1 [0, 1] edge_BC (?S, [2], t0) = Inr (st', heap', t')"
    and a: "num_lt (num_add (length_of ?S 1) (weight edge_BC)) (length_of ?S (head edge_BC)) \<longrightarrow>
         length_of st' (head edge_BC) = num_add (length_of ?S 1) (weight edge_BC)"
    and c: "\<forall>n. n \<noteq> head edge_BC \<longrightarrow> length_of st' n = length_of ?S n"
    and d: "head edge_BC \<notin> set [0, 1]
         \<and> (\<forall>v \<in> set [0, 1]. length_of st' v \<noteq> length_of st' (head edge_BC)) \<longrightarrow>
         heap' = heappush st' [2] (head edge_BC) \<and> mset heap' = add_mset (head edge_BC) (mset [2])"
    by blast
  from a h s have l2: "length_of st' 2 = Fin 6" by simp
  from c h s have "length_of st' 0 = Fin 0" "length_of st' 1 = Fin 5" by simp_all
  with h l2 have p: "head edge_BC \<notin> set [0, 1]
      \<and> (\<forall>v \<in> set [0, 1]. length_of st' v \<noteq> length_of st' (head edge_BC))" by simp
  from d p have "mset heap' = add_mset (head edge_BC) (mset [2])" by blast
  with h have "mset heap' = {#2, 2#}" by simp
  with r l2 l h show ?thesis by auto
qed

section \<open>Claims\<close>

text \<open>
  C1 (fails on the code). The claim: with non-negative weights, the two variants leave the
  same lengths. On the chain A \<open>\<rightarrow>\<close> B (0), B \<open>\<rightarrow>\<close> C (1), started at A, the simple variant
  gives C the length 1 and the heap variant leaves it at infinity: B gets the length 0,
  which equals the length of the visited node A, so \<open>edge.head not in visited\<close> is false and
  B is never pushed.
\<close>

theorem heap_differs_from_simple_on_chain:
  "graph_ok chain_store chain_graph \<and> nonneg_weights chain_graph \<and> 0 \<in> set (nodes chain_graph)
   \<and> simple_lengths chain_store chain_graph 0 t0 = [Fin 0, Fin 0, Fin 1]
   \<and> heap_lengths chain_store chain_graph 0 t0 = Inr [Fin 0, Fin 0, PInf]"
  by code_simp

text \<open>
  C2 (fails on the code). The claim: after a run, every edge whose tail has a finite length
  satisfies \<open>length(head) \<le> length(tail) + weight\<close>. After the heap variant's run on the
  chain, the edge B \<open>\<rightarrow>\<close> C has tail length 0 and head length infinity.
\<close>

theorem heap_not_optimal_on_chain:
  "graph_ok chain_store chain_graph \<and> nonneg_weights chain_graph \<and> 0 \<in> set (nodes chain_graph)
   \<and> edge_BC \<in> set (edges chain_graph)
   \<and> heap_optimal chain_store chain_graph 0 t0 = Inr False"
  by code_simp

text \<open>
  C3 (fails on the code). The claim: when the criterion is strictly less than the head's
  length, the head's length is updated and the head is pushed. Processing the edge
  A \<open>\<rightarrow>\<close> B of the chain right after A was popped and marked visited, the criterion 0 is
  strictly less than B's length (infinity) and B's length is updated, but the heap stays
  empty: B's new length equals the length of the visited node A, so
  \<open>edge.head not in visited\<close> is false and B is not pushed.
\<close>

theorem relax_edge_updates_without_push:
  "num_lt (num_add (length_of chain_init 0) (weight edge_AB)) (length_of chain_init (head edge_AB))
   \<and> relax_edge 0 [0] edge_AB (chain_init, [], t0)
       = Inr (set_length chain_init 1 (Fin 0), [], incr_heap 1 (incr_heap 3 t0))"
  by code_simp


text \<open>
  C5, as stated, fails at 0: \<open>add_heap_op\<close> does not clamp its argument, and \<open>math.log2(0)\<close>
  raises.
\<close>

theorem add_heap_op_zero_raises:
  "add_heap_op 0 t0 = Inl ValueError"
  by (simp add: add_heap_op_def)

text \<open>
  C5, amended. For every positive \<open>heap_size\<close>, \<open>add_heap_op\<close> succeeds and adds
  \<open>log2(heap_size) + 1\<close>, which is \<open>log2(max(heap_size, 1)) + 1\<close>. The clamp belongs to the
  caller: the push site of \<open>heap_shortest_path\<close> passes \<open>max(1, len(heap))\<close>, and with it
  the call succeeds for every size.
\<close>

theorem add_heap_op_positive:
  "(1 \<le> heap_size \<longrightarrow>
      add_heap_op heap_size t
        = Inr (t\<lparr>heap_ops := heap_ops t + (log2 (real_of_int (max heap_size 1)) + 1)\<rparr>))
   \<and> add_heap_op (max 1 heap_size) t
        = Inr (t\<lparr>heap_ops := heap_ops t + (log2 (real_of_int (max heap_size 1)) + 1)\<rparr>)"
  by (auto simp: add_heap_op_def max_def)

theorem add_heap_op_positive_witness:
  "(1::int) \<le> 4
   \<and> add_heap_op 4 t0 = Inr (t0\<lparr>heap_ops := heap_ops t0 + (log2 (real_of_int (max 4 1)) + 1)\<rparr>)"
  using add_heap_op_positive [of 4 t0] by simp



text \<open>
  C6. A node of the graph without a directed path from \<open>start\<close> has the length infinity
  after a run of either variant. (No assumption on the weights is needed; the heap
  variant's run returns whenever the references of the store are valid.)
\<close>

theorem unreachable_stays_infinite:
  assumes "n \<in> set (nodes g)" and "\<not> reach st start n"
  shows "length_of (fst (simple_shortest_path st g start t)) n = PInf
    \<and> (heap_shortest_path st g start t = Inr (st', t') \<longrightarrow> length_of st' n = PInf)
    \<and> (heads_in_store st \<and> start < length st \<longrightarrow>
         (\<exists>st' t'. heap_shortest_path st g start t = Inr (st', t') \<and> length_of st' n = PInf))"
proof -
  have "heads_in_store st \<and> start < length st \<longrightarrow>
      (\<exists>st' t'. heap_shortest_path st g start t = Inr (st', t') \<and> length_of st' n = PInf)"
    using heap_total_store [of st start g t] heap_unreachable [OF assms, of t] by blast
  then show ?thesis
    using simple_unreachable [OF assms, of t] heap_unreachable [OF assms, of t st' t'] by simp
qed

theorem unreachable_stays_infinite_witness:
  "1 \<in> set (nodes pair_graph) \<and> \<not> reach pair_store 0 1
   \<and> length_of pair_store 1 = Fin 7
   \<and> length_of (fst (simple_shortest_path pair_store pair_graph 0 t0)) 1 = PInf
   \<and> (\<exists>st' t'. heap_shortest_path pair_store pair_graph 0 t0 = Inr (st', t')
         \<and> length_of st' 1 = PInf)"
proof -
  have m: "1 \<in> set (nodes pair_graph)" by (simp add: pair_graph_def)
  have ob: "outbound_of pair_store u = []" for u
    by (simp add: outbound_of_def deref_def pair_store_def nth_Cons')
  have "reach pair_store 0 n \<Longrightarrow> n = 0" for n
    by (induction rule: reach.induct) (simp_all add: ob)
  then have nr: "\<not> reach pair_store 0 1" by auto
  have l: "length_of pair_store 1 = Fin 7" by (simp add: length_of_def deref_def pair_store_def)
  obtain st' t' where r: "heap_shortest_path pair_store pair_graph 0 t0 = Inr (st', t')"
    using heap_lengths_run [OF heap_pair_run] by blast
  from unreachable_stays_infinite [OF m nr, of t0 st' t'] r m nr l show ?thesis by blast
qed

text \<open>
  C7. On a well-formed graph with non-negative weights and a start node of the graph,
  both variants end with the length 0 at \<open>start\<close> (and the heap variant does end).
\<close>

theorem start_length_zero:
  assumes "graph_ok st g" and "nonneg_weights g" and "start \<in> set (nodes g)"
  shows "length_of (fst (simple_shortest_path st g start t)) start = Fin 0
    \<and> (\<exists>st' t'. heap_shortest_path st g start t = Inr (st', t') \<and> length_of st' start = Fin 0)"
proof -
  from assms(1,3) have "start < length st" by (simp add: graph_ok_def list_all_iff)
  then have "length_of (fst (simple_shortest_path st g start t)) start = Fin 0"
    by (rule simple_start_zero)
  moreover obtain st' t' where r: "heap_shortest_path st g start t = Inr (st', t')"
    using heap_total_graph [OF assms(1,3)] by blast
  moreover have "length_of st' start = Fin 0" by (rule heap_start_zero [OF assms r])
  ultimately show ?thesis by blast
qed

theorem start_length_zero_witness:
  "graph_ok chain_store chain_graph \<and> nonneg_weights chain_graph \<and> 0 \<in> set (nodes chain_graph)
   \<and> length_of (fst (simple_shortest_path chain_store chain_graph 0 t0)) 0 = Fin 0
   \<and> (\<exists>st' t'. heap_shortest_path chain_store chain_graph 0 t0 = Inr (st', t')
         \<and> length_of st' 0 = Fin 0)"
proof -
  have ok: "graph_ok chain_store chain_graph" by code_simp
  have nn: "nonneg_weights chain_graph" by code_simp
  have m: "0 \<in> set (nodes chain_graph)" by (simp add: chain_graph_def)
  from start_length_zero [OF ok nn m, of t0] ok nn m show ?thesis by simp
qed

text \<open>
  C9. A run changes nothing but lengths: the store has the same nodes, each with the same
  data, inbound list and outbound list, after a run of either variant. Edges are held by
  value in these lists, so their tail, head and weight are unchanged as well; the graph
  itself (its node and edge sequences) is only read.
\<close>

theorem only_lengths_change:
  "structure_of (fst (simple_shortest_path st g start t)) = structure_of st
   \<and> (heap_shortest_path st g start t = Inr (st', t') \<longrightarrow> structure_of st' = structure_of st)
   \<and> (heads_in_store st \<and> start < length st \<longrightarrow>
        (\<exists>st' t'. heap_shortest_path st g start t = Inr (st', t')
           \<and> structure_of st' = structure_of st))"
proof -
  have "heads_in_store st \<and> start < length st \<longrightarrow>
      (\<exists>st' t'. heap_shortest_path st g start t = Inr (st', t')
         \<and> structure_of st' = structure_of st)"
    using heap_total_store [of st start g t] heap_structure [of st g start t] by blast
  then show ?thesis
    using simple_structure [of st g start t] heap_structure [of st g start t st' t'] by simp
qed

theorem only_lengths_change_witness:
  "\<exists>st' t'. heap_shortest_path chain_store chain_graph 0 t0 = Inr (st', t')
     \<and> structure_of st' = structure_of chain_store
     \<and> lengths st' \<noteq> lengths chain_store"
proof -
  obtain st' t' where r: "heap_shortest_path chain_store chain_graph 0 t0 = Inr (st', t')"
    and l: "lengths st' = [Fin 0, Fin 0, PInf]"
    using heap_lengths_run [OF heap_chain_run] by blast
  have "lengths chain_store = [PInf, PInf, PInf]" by (simp add: lengths_def chain_store_def)
  with l have "lengths st' \<noteq> lengths chain_store" by simp
  with only_lengths_change [of chain_store chain_graph 0 t0 st' t'] r show ?thesis by blast
qed

text \<open>
  C10. \<open>Node.__eq__\<close> and \<open>Node.__lt__\<close> compare the lengths and nothing else: payload and
  adjacency lists play no part, and neither does identity. Hence \<open>edge.head not in visited\<close>
  in the heap variant is false (the head counts as visited, and is not pushed) as soon
  as some visited node has the length the head has at that moment.
\<close>

theorem node_comparison_by_length:
  "(node_eq a b \<longleftrightarrow> length_n a = length_n b)
   \<and> (node_lt a b \<longleftrightarrow> num_lt (length_n a) (length_n b))
   \<and> node_eq (a\<lparr>data := d, inbound := es, outbound := es'\<rparr>) b = node_eq a b
   \<and> node_lt (a\<lparr>data := d, inbound := es, outbound := es'\<rparr>) b = node_lt a b
   \<and> (v \<in> set visited \<and> length_of s v = length_of s h \<longrightarrow> node_in s h visited)
   \<and> (v \<in> set visited \<and> relax_edge x visited e (st, heap, t) = Inr (st', heap', t')
        \<and> length_of st' v = length_of st' (head e) \<longrightarrow> heap' = heap)"
proof -
  have "v \<in> set visited \<and> relax_edge x visited e (st, heap, t) = Inr (st', heap', t')
        \<and> length_of st' v = length_of st' (head e) \<longrightarrow> heap' = heap"
    using relax_edge_cases [of x visited e st heap t st' heap' t'] by (auto simp: node_in_iff)
  then show ?thesis by (auto simp: node_eq_def node_lt_def node_in_iff)
qed

theorem node_comparison_by_length_witness:
  "0 \<in> set [0::nat] \<and> (1::nat) \<notin> set [0]
   \<and> length_of (set_length chain_init 1 (Fin 0)) 0 = length_of (set_length chain_init 1 (Fin 0)) 1
   \<and> node_in (set_length chain_init 1 (Fin 0)) 1 [0]
   \<and> relax_edge 0 [0] edge_AB (chain_init, [], t0)
       = Inr (set_length chain_init 1 (Fin 0), [], incr_heap 1 (incr_heap 3 t0))"
proof -
  let ?S = "set_length chain_init 1 (Fin 0)"
  have v: "0 \<in> set [0::nat]" "(1::nat) \<notin> set [0]" by simp_all
  have l: "length_of ?S 0 = length_of ?S 1" by code_simp
  have h: "head edge_AB = 1" by (simp add: edge_AB_def)
  from node_comparison_by_length [where a = "chain_store ! 0" and b = "chain_store ! 1"
      and d = "''x''" and es = "[]" and es' = "[]" and v = 0 and visited = "[0]" and s = ?S
      and h = 1 and x = 0 and e = edge_AB and st = chain_init and heap = "[]" and t = t0
      and st' = ?S and heap' = "[]" and t' = "incr_heap 1 (incr_heap 3 t0)"]
  have "0 \<in> set [0::nat] \<and> length_of ?S 0 = length_of ?S 1 \<longrightarrow> node_in ?S 1 [0]" by blast
  with v l relax_chain_AB show ?thesis by simp
qed



end
